theory Spec2Isabelle
  imports Main "HOL-Library.Char_ord" "HOL-Library.List_Lexorder"
begin

section \<open>The automaton value shared by both pages\<close>

text \<open>
  A state reference in the JavaScript is a string; reading element 0 of an empty array or
  looking a missing key up in a \<open>Map\<close> gives \<open>undefined\<close>, which the code then stores and
  uses as a state reference. Used as a property key, \<open>undefined\<close> is the string
  \<open>"undefined"\<close>.
\<close>

datatype sid = Undefined | Str string

fun toKey :: "sid \<Rightarrow> string" where
  "toKey Undefined = ''undefined''"
| "toKey (Str s) = s"

text \<open>\<open>!x\<close> on a state reference: \<open>undefined\<close> and the empty string are falsy.\<close>

fun falsy :: "sid \<Rightarrow> bool" where
  "falsy Undefined = True"
| "falsy (Str s) = (s = [])"

text \<open>
  The own properties of a plain object are an association list read with \<open>map_of\<close>; an
  automaton is the object \<open>{states, alphabet, start, accept, transitions}\<close>, with
  \<open>transitions[state][symbol]\<close> an array of destinations.
\<close>

type_synonym 'v obj = "(string \<times> 'v) list"

record automaton =
  states :: "sid list"
  alphabet :: "string list"
  start :: sid
  accept :: "sid list"
  transitions :: "sid list obj obj"

text \<open>
  The reason strings of the two evaluators: \<open>Symbol 'c' not in alphabet\<close>,
  \<open>No start state\<close>, \<open>Dead configuration\<close>, \<open>Reached an accept state\<close>,
  \<open>No accept state reached\<close> (NFAtoDFA.js), \<open>No transition\<close> and
  \<open>Stopped in non-accepting state\<close> (DAFSA.js).
\<close>

datatype reason =
    SymbolNotInAlphabet char
  | NoStartState
  | DeadConfiguration
  | ReachedAcceptState
  | NoAcceptStateReached
  | NoTransition
  | StoppedInNonAccepting

record verdict =
  accepted :: bool
  reason :: reason

text \<open>\<open>set.add(t)\<close> on a JavaScript \<open>Set\<close>, kept in insertion order.\<close>

definition set_add :: "'a list \<Rightarrow> 'a \<Rightarrow> 'a list" where
  "set_add T t = (if t \<in> set T then T else T @ [t])"

subsection \<open>Lookups that reach the prototype\<close>

text \<open>
  The transition tables are object literals and results of \<open>JSON.parse\<close>. Their prototype
  is \<open>Object.prototype\<close>, so \<open>ob[k]\<close>, for a \<open>k\<close> that is not an own property of \<open>ob\<close>, is
  the property \<open>k\<close> of \<open>Object.prototype\<close> when it has one: the function \<open>Object\<close> under
  \<open>constructor\<close>, a method under ten more names, and under \<open>__proto__\<close> (an accessor) the
  prototype of \<open>ob\<close>, which is \<open>Object.prototype\<close> itself. The built-in objects are taken
  as ECMAScript 2024 (with its Annex B) defines them and as they are when the page is
  loaded.
\<close>

definition object_prototype_methods :: "string list" where
  "object_prototype_methods =
     [''constructor'', ''hasOwnProperty'', ''isPrototypeOf'', ''propertyIsEnumerable'',
      ''toLocaleString'', ''toString'', ''valueOf'', ''__defineGetter__'',
      ''__defineSetter__'', ''__lookupGetter__'', ''__lookupSetter__'']"

datatype builtin = ObjectPrototype | Method string

datatype 'v property = Own 'v | Inherited builtin | Absent

definition get_property :: "'v obj \<Rightarrow> string \<Rightarrow> 'v property" where
  "get_property ob k =
     (case map_of ob k of
        Some v \<Rightarrow> Own v
      | None \<Rightarrow>
          if k = ''__proto__'' then Inherited ObjectPrototype
          else if k \<in> set object_prototype_methods then Inherited (Method k)
          else Absent)"

text \<open>
  What a lookup in a transition table can give: \<open>undefined\<close>, \<open>null\<close>, a number, a string,
  an array of state references, or a function or object that is not an array (\<open>VObject\<close>:
  truthy and not iterable).
\<close>

datatype jsvalue = VUndefined | VNull | VNumber nat | VString string | VArray "sid list" | VObject

text \<open>
  A step that ends the surrounding function: a \<open>TypeError\<close> is thrown, or an assignment
  changes a built-in object or the prototype of an object. Such a change stays for every
  later lookup on the page; the model stops there and does not say what follows.
\<close>

datatype halt = TypeError | ChangesBuiltin

text \<open>
  The property \<open>k\<close> of a built-in object. A method \<open>Method f\<close> is the function stored
  under \<open>f\<close> in \<open>Object.prototype\<close>: it has its own \<open>name\<close> and \<open>length\<close> (and \<open>Object\<close>
  its \<open>prototype\<close> and its static functions), and it inherits from \<open>Function.prototype\<close>,
  whose \<open>caller\<close> and \<open>arguments\<close> are accessors that throw, and then from
  \<open>Object.prototype\<close>.
\<close>

definition function_name :: "string \<Rightarrow> string" where
  "function_name f = (if f = ''constructor'' then ''Object'' else f)"

definition function_length :: "string \<Rightarrow> nat" where
  "function_length f =
     (if f \<in> set [''toLocaleString'', ''toString'', ''valueOf''] then 0
      else if f \<in> set [''__defineGetter__'', ''__defineSetter__''] then 2
      else 1)"

definition function_prototype_methods :: "string list" where
  "function_prototype_methods = [''apply'', ''bind'', ''call'', ''constructor'', ''toString'']"

definition object_functions :: "string list" where
  "object_functions =
     [''assign'', ''create'', ''defineProperties'', ''defineProperty'', ''entries'', ''freeze'',
      ''fromEntries'', ''getOwnPropertyDescriptor'', ''getOwnPropertyDescriptors'',
      ''getOwnPropertyNames'', ''getOwnPropertySymbols'', ''getPrototypeOf'', ''groupBy'',
      ''hasOwn'', ''is'', ''isExtensible'', ''isFrozen'', ''isSealed'', ''keys'',
      ''preventExtensions'', ''seal'', ''setPrototypeOf'', ''values'']"

fun builtin_get :: "builtin \<Rightarrow> string \<Rightarrow> halt + jsvalue" where
  "builtin_get ObjectPrototype k =
     Inr (if k = ''__proto__'' then VNull
          else if k \<in> set object_prototype_methods then VObject
          else VUndefined)"
| "builtin_get (Method f) k =
     (if k = ''name'' then Inr (VString (function_name f))
      else if k = ''length'' then Inr (VNumber (function_length f))
      else if k = ''prototype'' then Inr (if f = ''constructor'' then VObject else VUndefined)
      else if k = ''caller'' \<or> k = ''arguments'' then Inl TypeError
      else if k = ''__proto__'' \<or> k \<in> set function_prototype_methods
              \<or> k \<in> set object_prototype_methods
              \<or> (f = ''constructor'' \<and> k \<in> set object_functions)
           then Inr VObject
      else Inr VUndefined)"

text \<open>\<open>ob[k]\<close> for an object \<open>ob\<close> of a transition table, whose own properties are arrays.\<close>

definition literal_get :: "sid list obj \<Rightarrow> string \<Rightarrow> jsvalue" where
  "literal_get ob k =
     (case get_property ob k of
        Own ds \<Rightarrow> VArray ds
      | Inherited b \<Rightarrow> VObject
      | Absent \<Rightarrow> VUndefined)"

text \<open>\<open>((a.transitions || {})[s] || {})[symb]\<close>\<close>

definition read_moves :: "automaton \<Rightarrow> sid \<Rightarrow> string \<Rightarrow> halt + jsvalue" where
  "read_moves a s symb =
     (case get_property (transitions a) (toKey s) of
        Own bySymb \<Rightarrow> Inr (literal_get bySymb symb)
      | Absent \<Rightarrow> Inr (literal_get [] symb)
      | Inherited b \<Rightarrow> builtin_get b symb)"

text \<open>
  \<open>moves = v || []\<close> followed by \<open>for (const t of moves)\<close>: the elements of an array, the
  characters of a string, nothing for a falsy value, and a \<open>TypeError\<close> for any other
  value, which is not iterable.
\<close>

fun iterate :: "jsvalue \<Rightarrow> halt + sid list" where
  "iterate VUndefined = Inr []"
| "iterate VNull = Inr []"
| "iterate (VNumber n) = (if n = 0 then Inr [] else Inl TypeError)"
| "iterate (VString s) = Inr (map (\<lambda>c. Str [c]) s)"
| "iterate (VArray ds) = Inr ds"
| "iterate VObject = Inl TypeError"

text \<open>
  In the evaluators the symbol is one character \<open>ch\<close> of the input. No built-in object has
  a property with a one-character name, so there
  \<open>(((a.transitions || {})[s] || {})[ch]) || []\<close> is an own array or is empty.
\<close>

definition moves :: "automaton \<Rightarrow> sid \<Rightarrow> char \<Rightarrow> sid list" where
  "moves a s ch =
     (case map_of (transitions a) (toKey s) of
        None \<Rightarrow> []
      | Some bySymb \<Rightarrow> (case map_of bySymb [ch] of None \<Rightarrow> [] | Some ds \<Rightarrow> ds))"

lemma builtin_get_character: "builtin_get b [ch] = Inr VUndefined"
  by (cases b)
    (simp_all add: object_prototype_methods_def function_prototype_methods_def
      object_functions_def)

lemma literal_get_character:
  "literal_get ob [ch] = (case map_of ob [ch] of None \<Rightarrow> VUndefined | Some ds \<Rightarrow> VArray ds)"
  by (simp add: literal_get_def get_property_def object_prototype_methods_def
      split: option.split)

lemma moves_read:
  "(case read_moves a s [ch] of Inl e \<Rightarrow> Inl e | Inr v \<Rightarrow> iterate v) = Inr (moves a s ch)"
  by (simp add: read_moves_def moves_def get_property_def builtin_get_character
      literal_get_character split: option.split)

text \<open>The two nested \<open>for\<close> loops that collect the successors of a set of states.\<close>

definition successors :: "automaton \<Rightarrow> sid list \<Rightarrow> char \<Rightarrow> sid list" where
  "successors a S ch = fold (\<lambda>q T. fold (\<lambda>t T'. set_add T' t) (moves a q ch) T) S []"

subsection \<open>\<open>accepts\<close> of NFAtoDFA.js\<close>

fun nfa_run :: "automaton \<Rightarrow> sid list \<Rightarrow> string \<Rightarrow> verdict" where
  "nfa_run a current [] =
     (let ok = list_ex (\<lambda>s. s \<in> set (accept a)) current
      in \<lparr>accepted = ok, reason = (if ok then ReachedAcceptState else NoAcceptStateReached)\<rparr>)"
| "nfa_run a current (ch # rest) =
     (let next = successors a current ch
      in if next = [] then \<lparr>accepted = False, reason = DeadConfiguration\<rparr>
         else nfa_run a next rest)"

definition nfa_accepts :: "automaton \<Rightarrow> string \<Rightarrow> verdict" where
  "nfa_accepts a inputStr =
     (case find (\<lambda>ch. [ch] \<notin> set (alphabet a)) inputStr of
        Some ch \<Rightarrow> \<lparr>accepted = False, reason = SymbolNotInAlphabet ch\<rparr>
      | None \<Rightarrow>
          if falsy (start a) then \<lparr>accepted = False, reason = NoStartState\<rparr>
          else nfa_run a [start a] inputStr)"

subsection \<open>\<open>accepts\<close> of DAFSA.js\<close>

fun dafsa_run :: "automaton \<Rightarrow> sid \<Rightarrow> string \<Rightarrow> verdict" where
  "dafsa_run dfa s [] =
     (let ok = (s \<in> set (accept dfa))
      in \<lparr>accepted = ok, reason = (if ok then ReachedAcceptState else StoppedInNonAccepting)\<rparr>)"
| "dafsa_run dfa s (ch # rest) =
     (case map_of (transitions dfa) (toKey s) of
        None \<Rightarrow> \<lparr>accepted = False, reason = NoTransition\<rparr>
      | Some bySymb \<Rightarrow>
          (case map_of bySymb [ch] of
             None \<Rightarrow> \<lparr>accepted = False, reason = NoTransition\<rparr>
           | Some [] \<Rightarrow> \<lparr>accepted = False, reason = NoTransition\<rparr>
           | Some (d # _) \<Rightarrow> dafsa_run dfa d rest))"

definition dafsa_accepts :: "automaton \<Rightarrow> string \<Rightarrow> verdict" where
  "dafsa_accepts dfa inputStr =
     (case find (\<lambda>ch. [ch] \<notin> set (alphabet dfa)) inputStr of
        Some ch \<Rightarrow> \<lparr>accepted = False, reason = SymbolNotInAlphabet ch\<rparr>
      | None \<Rightarrow> dafsa_run dfa (start dfa) inputStr)"

text \<open>Every transition entry is an array of at most one destination.\<close>

definition deterministic :: "automaton \<Rightarrow> bool" where
  "deterministic a =
     list_all (\<lambda>(k, bySymb). list_all (\<lambda>(symb, ds). length ds \<le> 1) bySymb) (transitions a)"

section \<open>The alphabet check of both evaluators\<close>

lemma find_first_offending:
  assumes "list_all P pre" and "\<not> P ch"
  shows "find (\<lambda>c. \<not> P c) (pre @ ch # post) = Some ch"
  using assms by (induction pre) auto

text \<open>
  C7. When the input holds a character that is not in the alphabet, both evaluators return
  a rejection whose reason names the first such character, whatever the states, start,
  accept set and transitions of the automaton are: the verdict is a value, not an error,
  and it is reached before the start state or any transition is read.
\<close>

theorem alphabet_check_precedes_simulation:
  assumes "list_all (\<lambda>c. [c] \<in> set (alphabet a)) pre" and "[ch] \<notin> set (alphabet a)"
  shows "nfa_accepts a (pre @ ch # post) = \<lparr>accepted = False, reason = SymbolNotInAlphabet ch\<rparr>
       \<and> dafsa_accepts a (pre @ ch # post) = \<lparr>accepted = False, reason = SymbolNotInAlphabet ch\<rparr>"
  using find_first_offending [of "\<lambda>c. [c] \<in> set (alphabet a)" pre ch post] assms
  by (simp add: nfa_accepts_def dafsa_accepts_def)

theorem alphabet_check_precedes_simulation_witness:
  "nfa_accepts \<lparr>states = [Str ''q0''], alphabet = [''a'', ''b''], start = Str ''q0'',
       accept = [Str ''q0''], transitions = []\<rparr> ''abca''
     = \<lparr>accepted = False, reason = SymbolNotInAlphabet CHR ''c''\<rparr>
   \<and> dafsa_accepts \<lparr>states = [Str ''q0''], alphabet = [''a'', ''b''], start = Str ''q0'',
       accept = [Str ''q0''], transitions = []\<rparr> ''abca''
     = \<lparr>accepted = False, reason = SymbolNotInAlphabet CHR ''c''\<rparr>"
  using alphabet_check_precedes_simulation
    [of "\<lparr>states = [Str ''q0''], alphabet = [''a'', ''b''], start = Str ''q0'',
          accept = [Str ''q0''], transitions = []\<rparr>" "''ab''" "CHR ''c''" "''a''"]
  by simp

section \<open>The two evaluators on a deterministic automaton\<close>

lemma deterministic_entry:
  assumes "deterministic a" and "map_of (transitions a) k = Some bySymb"
    and "map_of bySymb symb = Some ds"
  shows "length ds \<le> 1"
proof -
  from assms(2) have "(k, bySymb) \<in> set (transitions a)" by (rule map_of_SomeD)
  with assms(1) have "list_all (\<lambda>(symb, ds). length ds \<le> 1) bySymb"
    by (auto simp: deterministic_def list_all_iff)
  moreover from assms(3) have "(symb, ds) \<in> set bySymb" by (rule map_of_SomeD)
  ultimately show ?thesis by (auto simp: list_all_iff)
qed

lemma successors_single:
  "successors a [s] ch = fold (\<lambda>t T'. set_add T' t) (moves a s ch) []"
  by (simp add: successors_def)

lemma run_agree:
  assumes "deterministic a"
  shows "accepted (nfa_run a [s] w) = accepted (dafsa_run a s w)"
proof (induction w arbitrary: s)
  case Nil
  show ?case by (simp add: Let_def)
next
  case (Cons ch rest)
  show ?case
  proof (cases "map_of (transitions a) (toKey s)")
    case None
    then show ?thesis by (simp add: successors_single moves_def)
  next
    case (Some bySymb)
    show ?thesis
    proof (cases "map_of bySymb [ch]")
      case None
      with Some show ?thesis by (simp add: successors_single moves_def)
    next
      case inner: (Some ds)
      from deterministic_entry [OF assms Some inner] have "ds = [] \<or> (\<exists>d. ds = [d])"
        by (cases ds) auto
      then show ?thesis
      proof
        assume "ds = []"
        with Some inner show ?thesis by (simp add: successors_single moves_def)
      next
        assume "\<exists>d. ds = [d]"
        then obtain d where "ds = [d]" ..
        with Some inner Cons.IH [of d] show ?thesis
          by (simp add: successors_single moves_def set_add_def)
      qed
    qed
  qed
qed

text \<open>
  An automaton whose only state is named by the empty string, which is also its start and
  its accept state.
\<close>

definition empty_name_automaton :: automaton where
  "empty_name_automaton =
     \<lparr>states = [Str ''''], alphabet = [''a''], start = Str '''', accept = [Str ''''],
      transitions = []\<rparr>"

text \<open>
  C9, as stated, fails: the start state of \<open>empty_name_automaton\<close> is defined (it is
  the string \<open>""\<close>) and it has no transition entry at all, yet on the empty input the
  evaluator of NFAtoDFA.js answers \<open>No start state\<close> (its guard is \<open>!a.start\<close>, and the
  empty string is falsy) while the evaluator of DAFSA.js, which has no such guard, accepts.
\<close>

theorem evaluators_disagree_on_empty_start_name:
  "deterministic empty_name_automaton
   \<and> start empty_name_automaton = Str ''''
   \<and> nfa_accepts empty_name_automaton '''' = \<lparr>accepted = False, reason = NoStartState\<rparr>
   \<and> dafsa_accepts empty_name_automaton '''' = \<lparr>accepted = True, reason = ReachedAcceptState\<rparr>"
  by (simp add: empty_name_automaton_def deterministic_def nfa_accepts_def dafsa_accepts_def)

text \<open>
  C9, amended: for every automaton whose start state is a non-empty string (a value that
  \<open>!a.start\<close> does not reject) and whose transition entries are arrays of at most one
  destination, and for every input string, the two evaluators return the same
  \<open>accepted\<close> boolean.
\<close>

theorem evaluators_agree_on_deterministic:
  assumes "deterministic a" and "\<not> falsy (start a)"
  shows "accepted (nfa_accepts a w) = accepted (dafsa_accepts a w)"
  using assms run_agree [OF assms(1), of "start a" w]
  by (simp add: nfa_accepts_def dafsa_accepts_def split: option.split)

theorem evaluators_agree_on_deterministic_witness:
  "deterministic \<lparr>states = [Str ''p'', Str ''q''], alphabet = [''a'', ''b''], start = Str ''p'',
       accept = [Str ''q''], transitions = [(''p'', [(''a'', [Str ''q'']), (''b'', [])])]\<rparr>
   \<and> \<not> falsy (Str ''p'')
   \<and> accepted (nfa_accepts \<lparr>states = [Str ''p'', Str ''q''], alphabet = [''a'', ''b''],
       start = Str ''p'', accept = [Str ''q''],
       transitions = [(''p'', [(''a'', [Str ''q'']), (''b'', [])])]\<rparr> ''a'')
   \<and> accepted (dafsa_accepts \<lparr>states = [Str ''p'', Str ''q''], alphabet = [''a'', ''b''],
       start = Str ''p'', accept = [Str ''q''],
       transitions = [(''p'', [(''a'', [Str ''q'']), (''b'', [])])]\<rparr> ''a'')"
  using evaluators_agree_on_deterministic
    [of "\<lparr>states = [Str ''p'', Str ''q''], alphabet = [''a'', ''b''], start = Str ''p'',
          accept = [Str ''q''], transitions = [(''p'', [(''a'', [Str ''q'']), (''b'', [])])]\<rparr>"
        "''a''"]
  by (simp add: deterministic_def nfa_accepts_def successors_def moves_def set_add_def)

section \<open>Loading an automaton definition (NFAtoDFA.js)\<close>

text \<open>The value \<open>JSON.parse\<close> returns.\<close>

datatype json =
    JNull
  | JBool bool
  | JNum int
  | JStr string
  | JArr "json list"
  | JObj "(string \<times> json) list"

text \<open>
  What the click handler's \<open>try\<close> block can throw after parsing: the \<open>TypeError\<close> of
  \<open>k in obj\<close> on a value that is not an object, \<open>Missing key 'k'\<close>,
  \<open>states, alphabet, and accept must be arrays\<close>,
  \<open>Epsilon transitions are not supported.\<close>, and whatever \<open>renderAutomaton\<close> throws.
\<close>

datatype load_error =
    InOnNonObject
  | MissingKey string
  | MustBeArrays
  | EpsilonNotSupported
  | RenderError

text \<open>
  \<open>k in obj\<close> for the six key names the handler asks about (none of them is a property
  of \<open>Object.prototype\<close> or of an array).
\<close>

fun key_in :: "string \<Rightarrow> json \<Rightarrow> load_error + bool" where
  "key_in k (JObj kvs) = Inr (k \<in> fst ` set kvs)"
| "key_in k (JArr xs) = Inr False"
| "key_in k _ = Inl InOnNonObject"

text \<open>\<open>Array.isArray(obj.k)\<close>\<close>

fun isArray_field :: "json \<Rightarrow> string \<Rightarrow> bool" where
  "isArray_field (JObj kvs) k = (case map_of kvs k of Some (JArr _) \<Rightarrow> True | _ \<Rightarrow> False)"
| "isArray_field _ k = False"

definition required :: "string list" where
  "required = [''states'', ''alphabet'', ''start'', ''accept'', ''transitions'']"

fun check_required :: "string list \<Rightarrow> json \<Rightarrow> load_error option" where
  "check_required [] obj = None"
| "check_required (k # ks) obj =
     (case key_in k obj of
        Inl e \<Rightarrow> Some e
      | Inr False \<Rightarrow> Some (MissingKey k)
      | Inr True \<Rightarrow> check_required ks obj)"

text \<open>The checks of the handler, in the order it makes them; \<open>None\<close> when none throws.\<close>

definition checks :: "json \<Rightarrow> load_error option" where
  "checks obj =
     (case check_required required obj of
        Some e \<Rightarrow> Some e
      | None \<Rightarrow>
          if \<not> isArray_field obj ''states'' \<or> \<not> isArray_field obj ''alphabet''
             \<or> \<not> isArray_field obj ''accept''
          then Some MustBeArrays
          else (case key_in ''epsilon'' obj of
                  Inl e \<Rightarrow> Some e
                | Inr True \<Rightarrow> Some EpsilonNotSupported
                | Inr False \<Rightarrow> None))"

text \<open>
  The page's globals \<open>automaton\<close> and \<open>originalNFA\<close>, and whether \<open>setLoadedUI\<close> left
  the controls enabled. The handler from the parsed value on: it returns the new globals
  and the error it alerted, if any. \<open>renderAutomaton\<close> draws with the vis-network library,
  which is not among the sources: \<open>renders obj\<close> says whether it returns for \<open>obj\<close>. It is
  called after the two globals are assigned, so when it throws the \<open>catch\<close> block disables
  the controls and the new automaton stays installed.
\<close>

record page =
  currentAutomaton :: "json option"
  originalNFA :: "json option"
  controlsEnabled :: bool

definition load_click :: "(json \<Rightarrow> bool) \<Rightarrow> json \<Rightarrow> page \<Rightarrow> page \<times> load_error option" where
  "load_click renders obj pg =
     (case checks obj of
        Some e \<Rightarrow> (pg\<lparr>controlsEnabled := False\<rparr>, Some e)
      | None \<Rightarrow>
          if renders obj
          then (\<lparr>currentAutomaton = Some obj, originalNFA = Some obj, controlsEnabled = True\<rparr>,
                None)
          else (\<lparr>currentAutomaton = Some obj, originalNFA = Some obj, controlsEnabled = False\<rparr>,
                Some RenderError))"

definition readme_nfa :: json where
  "readme_nfa = JObj
     [(''states'', JArr [JStr ''q1'', JStr ''q2'']),
      (''alphabet'', JArr [JStr ''a'', JStr ''b'']),
      (''start'', JStr ''q1''),
      (''accept'', JArr [JStr ''q2'']),
      (''transitions'', JObj
         [(''q1'', JObj [(''a'', JArr [JStr ''q1'', JStr ''q2'']), (''b'', JArr [JStr ''q1''])]),
          (''q2'', JObj [(''b'', JArr [JStr ''q1''])])])]"

definition readme_nfa_with_epsilon :: json where
  "readme_nfa_with_epsilon = JObj
     [(''states'', JArr [JStr ''q1'', JStr ''q2'']),
      (''alphabet'', JArr [JStr ''a'', JStr ''b'']),
      (''start'', JStr ''q1''),
      (''accept'', JArr [JStr ''q2'']),
      (''transitions'', JObj []),
      (''epsilon'', JObj [(''q1'', JArr [JStr ''q2''])])]"

definition page_with_readme_nfa :: page where
  "page_with_readme_nfa =
     \<lparr>currentAutomaton = Some readme_nfa, originalNFA = Some readme_nfa, controlsEnabled = True\<rparr>"

text \<open>
  C5, as stated, fails twice. A definition that holds an \<open>epsilon\<close> key but no \<open>states\<close>
  key fails with \<open>Missing key 'states'\<close> (the required keys are checked first), not with
  the epsilon error. And a load that does fail with the epsilon error keeps the automaton
  that was installed before it: the handler never resets the global.
\<close>

theorem epsilon_key_other_error_and_old_automaton_kept:
  "snd (load_click (\<lambda>obj. True) (JObj [(''epsilon'', JObj [])]) page_with_readme_nfa)
     = Some (MissingKey ''states'')
   \<and> snd (load_click (\<lambda>obj. True) readme_nfa_with_epsilon page_with_readme_nfa)
     = Some EpsilonNotSupported
   \<and> currentAutomaton
       (fst (load_click (\<lambda>obj. True) readme_nfa_with_epsilon page_with_readme_nfa))
     = Some readme_nfa"
  by (simp add: load_click_def checks_def required_def readme_nfa_with_epsilon_def
      page_with_readme_nfa_def)

lemma check_required_all_present:
  "set ks \<subseteq> fst ` set kvs \<Longrightarrow> check_required ks (JObj kvs) = None"
  by (induction ks) auto

text \<open>
  C5, amended: for every parsed definition that is an object with the five required keys,
  with arrays under \<open>states\<close>, \<open>alphabet\<close> and \<open>accept\<close>, and with a key \<open>epsilon\<close>, the
  load fails with the epsilon error (the spec's \<open>UnsupportedFeature\<close>), the definition is
  not installed, and the globals keep the values they had: no automaton is installed if
  none was.
\<close>

theorem epsilon_rejected_globals_unchanged:
  assumes "set required \<subseteq> fst ` set kvs"
    and "isArray_field (JObj kvs) ''states''"
    and "isArray_field (JObj kvs) ''alphabet''"
    and "isArray_field (JObj kvs) ''accept''"
    and "''epsilon'' \<in> fst ` set kvs"
  shows "load_click renders (JObj kvs) pg
     = (pg\<lparr>controlsEnabled := False\<rparr>, Some EpsilonNotSupported)"
  using assms check_required_all_present [OF assms(1)]
  by (simp add: load_click_def checks_def)

theorem epsilon_rejected_globals_unchanged_witness:
  "load_click (\<lambda>obj. True) readme_nfa_with_epsilon
       \<lparr>currentAutomaton = None, originalNFA = None, controlsEnabled = False\<rparr>
     = (\<lparr>currentAutomaton = None, originalNFA = None, controlsEnabled = False\<rparr>,
        Some EpsilonNotSupported)"
  using epsilon_rejected_globals_unchanged
    [where kvs = "[(''states'', JArr [JStr ''q1'', JStr ''q2'']),
          (''alphabet'', JArr [JStr ''a'', JStr ''b'']),
          (''start'', JStr ''q1''),
          (''accept'', JArr [JStr ''q2'']),
          (''transitions'', JObj []),
          (''epsilon'', JObj [(''q1'', JArr [JStr ''q2''])])]"
       and pg = "\<lparr>currentAutomaton = None, originalNFA = None, controlsEnabled = False\<rparr>"
       and renders = "\<lambda>obj. True"]
  by (simp add: readme_nfa_with_epsilon_def required_def)

section \<open>Subset construction (NFAtoDFA.js)\<close>

text \<open>\<open>arr.join(",")\<close> on an array of strings.\<close>

fun join_comma :: "string list \<Rightarrow> string" where
  "join_comma [] = []"
| "join_comma [x] = x"
| "join_comma (x # y # ys) = x @ '','' @ join_comma (y # ys)"

text \<open>
  \<open>join\<close> writes \<open>undefined\<close> as the empty string; the default \<open>sort\<close> orders strings by
  their code units and puts \<open>undefined\<close> last.
\<close>

fun join_text :: "sid \<Rightarrow> string" where
  "join_text Undefined = []"
| "join_text (Str s) = s"

definition js_sort :: "sid list \<Rightarrow> sid list" where
  "js_sort arr = map Str (sort [s. Str s \<leftarrow> arr]) @ filter (\<lambda>x. x = Undefined) arr"

text \<open>\<open>keyOf\<close>: \<open>[...set]\<close>, then \<open>arr.sort()\<close>, then \<open>arr.join(",")\<close>.\<close>

definition keyOf :: "sid list \<Rightarrow> string" where
  "keyOf S = join_comma (map join_text (js_sort S))"

text \<open>
  The keys of a \<open>Map\<close> or the own keys of an object, and \<open>map.set(k, v)\<close> or the
  assignment \<open>ob[k] = v\<close> that makes or changes an own property: an existing key keeps its
  place, a new one goes last.
\<close>

definition keys_of :: "('k \<times> 'v) list \<Rightarrow> 'k set" where
  "keys_of ob = fst ` set ob"

fun obj_set :: "('k \<times> 'v) list \<Rightarrow> 'k \<Rightarrow> 'v \<Rightarrow> ('k \<times> 'v) list" where
  "obj_set [] k v = [(k, v)]"
| "obj_set ((k', v') # kvs) k v =
     (if k' = k then (k, v) # kvs else (k', v') # obj_set kvs k v)"

text \<open>The own properties of \<open>tr[k] || {}\<close>.\<close>

definition obj_get :: "'v obj obj \<Rightarrow> string \<Rightarrow> 'v obj" where
  "obj_get tr k = (case map_of tr k of None \<Rightarrow> [] | Some bySymb \<Rightarrow> bySymb)"

text \<open>
  The value of \<open>dfaTransitions[Skey]\<close>: an object literal that the loop made and fills, or
  a built-in function that \<open>dfaTransitions\<close> inherits under the name \<open>Skey\<close>.
\<close>

datatype entry = Literal "sid list obj" | Builtin builtin

text \<open>
  \<open>dfaTransitions[Skey] = dfaTransitions[Skey] || {}\<close>. An inherited function is truthy,
  and the assignment stores it as an own property. Under \<open>__proto__\<close> the object reads its
  prototype and the assignment hands the same prototype to the setter: nothing changes.
\<close>

definition ensure_entry :: "entry obj \<Rightarrow> string \<Rightarrow> entry obj" where
  "ensure_entry dfaTransitions Skey =
     (case get_property dfaTransitions Skey of
        Own e \<Rightarrow> dfaTransitions
      | Absent \<Rightarrow> obj_set dfaTransitions Skey (Literal [])
      | Inherited (Method f) \<Rightarrow> obj_set dfaTransitions Skey (Builtin (Method f))
      | Inherited ObjectPrototype \<Rightarrow> dfaTransitions)"

text \<open>
  The properties of a built-in function that an assignment cannot change: \<open>name\<close> and
  \<open>length\<close>, and \<open>prototype\<close> of \<open>Object\<close>. The file has no \<open>"use strict"\<close> and is not a
  module (the README has the page opened from the file system), so such an assignment is
  ignored; in strict code it would throw a \<open>TypeError\<close>.
\<close>

fun read_only :: "builtin \<Rightarrow> string \<Rightarrow> bool" where
  "read_only (Method f) k \<longleftrightarrow>
     k = ''name'' \<or> k = ''length'' \<or> (f = ''constructor'' \<and> k = ''prototype'')"
| "read_only ObjectPrototype k \<longleftrightarrow> False"

text \<open>
  \<open>dfaTransitions[Skey][symb] = v\<close>. On an object literal it makes or changes an own
  property, except for \<open>__proto__\<close>, which replaces the prototype of the literal. On a
  built-in function it is ignored for a read-only property and changes the function
  otherwise; under the key \<open>__proto__\<close> it changes \<open>Object.prototype\<close>. (After
  \<open>ensure_entry\<close> the table has a value under \<open>Skey\<close>; an assignment to a property of
  \<open>undefined\<close> throws.)
\<close>

definition write_entry :: "entry obj \<Rightarrow> string \<Rightarrow> string \<Rightarrow> sid list \<Rightarrow> halt + entry obj" where
  "write_entry dfaTransitions Skey symb v =
     (case get_property dfaTransitions Skey of
        Own (Literal ob) \<Rightarrow>
          if symb = ''__proto__'' then Inl ChangesBuiltin
          else Inr (obj_set dfaTransitions Skey (Literal (obj_set ob symb v)))
      | Own (Builtin b) \<Rightarrow> if read_only b symb then Inr dfaTransitions else Inl ChangesBuiltin
      | Inherited b \<Rightarrow> Inl ChangesBuiltin
      | Absent \<Rightarrow> Inl TypeError)"

text \<open>
  The loop \<open>for (const q of S)\<close> with its inner loop \<open>for (const t of moves) T.add(t)\<close>.
\<close>

fun collect :: "automaton \<Rightarrow> string \<Rightarrow> sid list \<Rightarrow> sid list \<Rightarrow> halt + sid list" where
  "collect nfa symb [] T = Inr T"
| "collect nfa symb (q # S) T =
     (case read_moves nfa q symb of
        Inl h \<Rightarrow> Inl h
      | Inr v \<Rightarrow>
          (case iterate v of
             Inl h \<Rightarrow> Inl h
           | Inr ms \<Rightarrow> collect nfa symb S (fold (\<lambda>t T'. set_add T' t) ms T)))"

text \<open>
  The state of the worklist loop: \<open>statesMap\<close> (key to subset, in insertion order),
  \<open>stack\<close> (top first) and \<open>dfaTransitions\<close>. \<open>expand\<close> is the loop
  \<open>for (const sym of alphabet)\<close> for the subset \<open>S\<close> that was just popped.
\<close>

type_synonym subset_state = "(string \<times> sid list) list \<times> sid list list \<times> entry obj"

fun expand ::
  "automaton \<Rightarrow> sid list \<Rightarrow> string \<Rightarrow> string list \<Rightarrow> subset_state \<Rightarrow> halt + subset_state" where
  "expand nfa S Skey [] st = Inr st"
| "expand nfa S Skey (symb # rest) (statesMap, stack, dfaTransitions) =
     (case collect nfa symb S [] of
        Inl h \<Rightarrow> Inl h
      | Inr T \<Rightarrow>
          (case write_entry dfaTransitions Skey symb (if T \<noteq> [] then [Str (keyOf T)] else []) of
             Inl h \<Rightarrow> Inl h
           | Inr dfaTransitions' \<Rightarrow>
               if T \<noteq> [] \<and> keyOf T \<notin> keys_of statesMap
               then expand nfa S Skey rest
                      (statesMap @ [(keyOf T, T)], T # stack, dfaTransitions')
               else expand nfa S Skey rest (statesMap, stack, dfaTransitions')))"

lemma keys_of_Nil [simp]: "keys_of [] = {}"
  by (simp add: keys_of_def)

lemma keys_of_Cons [simp]: "keys_of ((k, v) # ob) = insert k (keys_of ob)"
  by (simp add: keys_of_def)

lemma keys_of_append [simp]: "keys_of (xs @ ys) = keys_of xs \<union> keys_of ys"
  by (auto simp: keys_of_def)

lemma keys_of_obj_set [simp]: "keys_of (obj_set ob k v) = insert k (keys_of ob)"
  by (induction ob) (auto split: if_splits)

lemma keys_of_member: "(k, v) \<in> set ob \<Longrightarrow> k \<in> keys_of ob"
  by (force simp: keys_of_def)

lemma map_of_keys_of: "map_of ob k = Some v \<Longrightarrow> k \<in> keys_of ob"
  by (auto dest: map_of_SomeD keys_of_member)

subsection \<open>What a lookup can find\<close>

lemma get_property_Own: "get_property ob k = Own v \<longleftrightarrow> map_of ob k = Some v"
  by (simp add: get_property_def split: option.split)

lemma get_property_Inherited:
  "get_property ob k = Inherited b \<Longrightarrow>
   map_of ob k = None
   \<and> ((b = ObjectPrototype \<and> k = ''__proto__'')
      \<or> (b = Method k \<and> k \<in> set object_prototype_methods))"
  by (auto simp: get_property_def split: option.splits if_splits)

lemma get_property_Absent:
  "get_property ob k = Absent \<Longrightarrow> map_of ob k = None"
  by (auto simp: get_property_def split: option.splits if_splits)

lemma builtin_get_VString:
  "builtin_get b k = Inr (VString s) \<Longrightarrow> \<exists>f. b = Method f \<and> s = function_name f"
  by (cases b) (auto split: if_splits)

lemma builtin_get_VArray: "builtin_get b k \<noteq> Inr (VArray ds)"
  by (cases b) (auto split: if_splits)

lemma literal_get_VString: "literal_get ob k \<noteq> VString s"
  by (simp add: literal_get_def split: property.split)

lemma literal_get_VArray: "literal_get ob k = VArray ds \<longleftrightarrow> map_of ob k = Some ds"
  by (simp add: literal_get_def get_property_def split: option.split)

lemma iterate_elements:
  "iterate v = Inr ms \<Longrightarrow> ms \<noteq> [] \<Longrightarrow> v = VArray ms \<or> (\<exists>s. v = VString s \<and> ms = map (\<lambda>c. Str [c]) s)"
  by (cases v) (auto split: if_splits)

text \<open>
  Every subset the loop builds is made of destinations listed in the transitions and of
  characters of the names of the built-in functions, so its key is one of finitely many.
\<close>

definition destinations :: "automaton \<Rightarrow> sid set" where
  "destinations nfa = (\<Union>(k, bySymb) \<in> set (transitions nfa). \<Union>(symb, ds) \<in> set bySymb. set ds)"

definition name_characters :: "sid set" where
  "name_characters = (\<Union>f \<in> set object_prototype_methods. (\<lambda>c. Str [c]) ` set (function_name f))"

definition reachable :: "automaton \<Rightarrow> sid set" where
  "reachable nfa = destinations nfa \<union> name_characters"

definition possible_keys :: "automaton \<Rightarrow> string set" where
  "possible_keys nfa = keyOf ` {T. set T \<subseteq> reachable nfa \<and> distinct T}"

lemma finite_possible_keys: "finite (possible_keys nfa)"
proof -
  have "finite (destinations nfa)" by (auto simp: destinations_def)
  moreover have "finite name_characters" by (simp add: name_characters_def)
  ultimately have "finite (reachable nfa)" by (simp add: reachable_def)
  then show ?thesis unfolding possible_keys_def by (intro finite_imageI finite_subset_distinct)
qed

lemma map_of_destinations:
  assumes "map_of (transitions nfa) k = Some bySymb" and "map_of bySymb symb = Some ds"
  shows "set ds \<subseteq> destinations nfa"
proof -
  from assms(1) have "(k, bySymb) \<in> set (transitions nfa)" by (rule map_of_SomeD)
  moreover from assms(2) have "(symb, ds) \<in> set bySymb" by (rule map_of_SomeD)
  ultimately show ?thesis unfolding destinations_def by blast
qed

lemma read_moves_VArray:
  assumes "read_moves nfa q symb = Inr (VArray ds)"
  shows "set ds \<subseteq> destinations nfa"
proof (cases "get_property (transitions nfa) (toKey q)")
  case (Own bySymb)
  with assms have "literal_get bySymb symb = VArray ds" by (simp add: read_moves_def)
  then have "map_of bySymb symb = Some ds" by (simp add: literal_get_VArray)
  moreover from Own have "map_of (transitions nfa) (toKey q) = Some bySymb"
    by (simp add: get_property_Own)
  ultimately show ?thesis by (rule map_of_destinations [rotated])
next
  case (Inherited b)
  with assms show ?thesis by (simp add: read_moves_def builtin_get_VArray)
next
  case Absent
  with assms have "map_of [] symb = Some ds"
    by (simp add: read_moves_def literal_get_VArray del: map_of.simps)
  then show ?thesis by simp
qed

lemma read_moves_VString:
  assumes "read_moves nfa q symb = Inr (VString s)"
  shows "(\<lambda>c. Str [c]) ` set s \<subseteq> name_characters"
proof (cases "get_property (transitions nfa) (toKey q)")
  case (Own bySymb)
  with assms show ?thesis by (simp add: read_moves_def literal_get_VString)
next
  case (Inherited b)
  with assms have g: "builtin_get b symb = Inr (VString s)" by (simp add: read_moves_def)
  from builtin_get_VString [OF g] obtain f where b: "b = Method f" and s: "s = function_name f"
    by blast
  from get_property_Inherited [OF Inherited] b have "f \<in> set object_prototype_methods" by auto
  with s show ?thesis unfolding name_characters_def by blast
next
  case Absent
  with assms show ?thesis by (simp add: read_moves_def literal_get_VString)
qed

lemma read_moves_subset:
  assumes "read_moves nfa q symb = Inr v" and "iterate v = Inr ms"
  shows "set ms \<subseteq> reachable nfa"
proof (cases "ms = []")
  case True
  then show ?thesis by simp
next
  case False
  from iterate_elements [OF assms(2) False] show ?thesis
  proof
    assume "v = VArray ms"
    with assms(1) have "read_moves nfa q symb = Inr (VArray ms)" by simp
    from read_moves_VArray [OF this] show ?thesis unfolding reachable_def by blast
  next
    assume "\<exists>s. v = VString s \<and> ms = map (\<lambda>c. Str [c]) s"
    then obtain s where v: "v = VString s" and ms: "ms = map (\<lambda>c. Str [c]) s" by blast
    from assms(1) v have "read_moves nfa q symb = Inr (VString s)" by simp
    from read_moves_VString [OF this] have "set ms \<subseteq> name_characters" unfolding ms by simp
    then show ?thesis unfolding reachable_def by blast
  qed
qed

lemma fold_set_add: "set (fold (\<lambda>t T'. set_add T' t) ms T) = set ms \<union> set T"
  by (induction ms arbitrary: T) (auto simp: set_add_def)

lemma fold_set_add_distinct: "distinct T \<Longrightarrow> distinct (fold (\<lambda>t T'. set_add T' t) ms T)"
  by (induction ms arbitrary: T) (auto simp: set_add_def)

lemma collect_subset:
  "collect nfa symb S T = Inr T' \<Longrightarrow> set T \<subseteq> reachable nfa \<Longrightarrow> distinct T \<Longrightarrow>
   set T' \<subseteq> reachable nfa \<and> distinct T'"
proof (induction S arbitrary: T)
  case Nil
  then show ?case by simp
next
  case (Cons q S)
  from Cons.prems(1) obtain v ms where r: "read_moves nfa q symb = Inr v"
    and i: "iterate v = Inr ms"
    and c: "collect nfa symb S (fold (\<lambda>t T'. set_add T' t) ms T) = Inr T'"
    by (auto split: sum.splits)
  from read_moves_subset [OF r i] Cons.prems(2)
  have "set (fold (\<lambda>t T'. set_add T' t) ms T) \<subseteq> reachable nfa" by (simp add: fold_set_add)
  moreover from Cons.prems(3) have "distinct (fold (\<lambda>t T'. set_add T' t) ms T)"
    by (rule fold_set_add_distinct)
  ultimately show ?case using Cons.IH [OF c] by blast
qed

lemma keyOf_collect: "collect nfa symb S [] = Inr T \<Longrightarrow> keyOf T \<in> possible_keys nfa"
  using collect_subset [of nfa symb S "[]" T] by (auto simp: possible_keys_def)

lemma progress_step:
  assumes "k \<notin> A" and "k \<in> P"
    and "B = insert k A \<or> (insert k A \<subset> B \<and> B \<subseteq> insert k A \<union> P)"
  shows "A \<subset> B \<and> B \<subseteq> A \<union> P"
  using assms by auto

lemma expand_progress:
  "expand nfa S Skey syms (sm, st, tr) = Inr (sm', st', tr') \<Longrightarrow>
   (sm' = sm \<and> st' = st) \<or>
   (keys_of sm \<subset> keys_of sm' \<and> keys_of sm' \<subseteq> keys_of sm \<union> possible_keys nfa)"
proof (induction syms arbitrary: sm st tr)
  case Nil
  then show ?case by simp
next
  case (Cons symb rest)
  from Cons.prems obtain T tr1 where c: "collect nfa symb S [] = Inr T"
    and w: "write_entry tr Skey symb (if T \<noteq> [] then [Str (keyOf T)] else []) = Inr tr1"
    by (auto split: sum.splits)
  show ?case
  proof (cases "T \<noteq> [] \<and> keyOf T \<notin> keys_of sm")
    case True
    from Cons.prems c w True
    have "expand nfa S Skey rest (sm @ [(keyOf T, T)], T # st, tr1) = Inr (sm', st', tr')"
      by simp
    from Cons.IH [OF this]
    have "keys_of sm' = insert (keyOf T) (keys_of sm)
      \<or> (insert (keyOf T) (keys_of sm) \<subset> keys_of sm'
         \<and> keys_of sm' \<subseteq> insert (keyOf T) (keys_of sm) \<union> possible_keys nfa)"
      by (elim disjE) simp_all
    with True keyOf_collect [OF c]
    have "keys_of sm \<subset> keys_of sm' \<and> keys_of sm' \<subseteq> keys_of sm \<union> possible_keys nfa"
      by (intro progress_step [of "keyOf T"]) simp_all
    then show ?thesis ..
  next
    case False
    from Cons.prems c w False
    have "expand nfa S Skey rest (sm, st, tr1) = Inr (sm', st', tr')"
      by (simp split: if_splits)
    from Cons.IH [OF this] show ?thesis .
  qed
qed

text \<open>
  The loop \<open>while (stack.length)\<close>. It ends on every input: with the tables it built,
  or with the step that stopped it.
\<close>

function nfaToDfa_loop ::
  "automaton \<Rightarrow> (string \<times> sid list) list \<Rightarrow> sid list list \<Rightarrow> entry obj
     \<Rightarrow> halt + (string \<times> sid list) list \<times> entry obj" where
  "nfaToDfa_loop nfa statesMap [] dfaTransitions = Inr (statesMap, dfaTransitions)"
| "nfaToDfa_loop nfa statesMap (S # stack) dfaTransitions =
     (case expand nfa S (keyOf S) (alphabet nfa)
             (statesMap, stack, ensure_entry dfaTransitions (keyOf S)) of
        Inl h \<Rightarrow> Inl h
      | Inr (statesMap', stack', dfaTransitions') \<Rightarrow>
          nfaToDfa_loop nfa statesMap' stack' dfaTransitions')"
  by pat_completeness auto
termination
proof (relation "inv_image (less_than <*lex*> less_than)
    (\<lambda>(nfa, statesMap, stack, tr). (card (possible_keys nfa - keys_of statesMap), length stack))",
    goal_cases)
  case 1
  show ?case by (intro wf_inv_image wf_lex_prod wf_less_than)
next
  case (2 nfa statesMap S stack tr st statesMap' rest stack' tr')
  then have "expand nfa S (keyOf S) (alphabet nfa) (statesMap, stack, ensure_entry tr (keyOf S))
      = Inr (statesMap', stack', tr')"
    by simp
  from expand_progress [OF this] show ?case
  proof
    assume "statesMap' = statesMap \<and> stack' = stack"
    then show ?thesis by simp
  next
    assume a: "keys_of statesMap \<subset> keys_of statesMap'
      \<and> keys_of statesMap' \<subseteq> keys_of statesMap \<union> possible_keys nfa"
    then have "possible_keys nfa - keys_of statesMap' \<subset> possible_keys nfa - keys_of statesMap"
      by blast
    then have "card (possible_keys nfa - keys_of statesMap') < card (possible_keys nfa - keys_of statesMap)"
      by (intro psubset_card_mono) (simp_all add: finite_possible_keys)
    then show ?thesis by simp
  qed
qed

declare nfaToDfa_loop.simps [simp del]

text \<open>
  The object that \<open>nfaToDfa\<close> returns, with \<open>dfaTransitions\<close> as the loop left it.
\<close>

record conversion_object =
  object_states :: "sid list"
  object_alphabet :: "string list"
  object_start :: sid
  object_accept :: "sid list"
  object_transitions :: "entry obj"

fun is_literal :: "entry \<Rightarrow> bool" where
  "is_literal (Literal ob) = True"
| "is_literal (Builtin b) = False"

fun literals :: "entry obj \<Rightarrow> sid list obj obj" where
  "literals [] = []"
| "literals ((k, Literal ob) # tr) = (k, ob) # literals tr"
| "literals ((k, Builtin b) # tr) = literals tr"

text \<open>
  How a call of \<open>nfaToDfa\<close> ends. It returns an automaton like the one it was given, with
  an object literal under every key of \<open>transitions\<close> (\<open>Returns\<close>); or it returns an object
  whose \<open>transitions\<close> holds a built-in function under some key (\<open>ReturnsBuiltin\<close>); or it
  stops, with a \<open>TypeError\<close> or at an assignment that changes a built-in object.
\<close>

datatype conversion = Returns automaton | ReturnsBuiltin conversion_object | Stops halt

definition nfaToDfa :: "automaton \<Rightarrow> conversion" where
  "nfaToDfa nfa =
     (let startSet = [start nfa];
          startKey = keyOf startSet
      in case nfaToDfa_loop nfa [(startKey, startSet)] [startSet] [] of
           Inl h \<Rightarrow> Stops h
         | Inr (statesMap, dfaTransitions) \<Rightarrow>
             (let dfaAccept = fold (\<lambda>(k, S) dfaAccept.
                      if list_ex (\<lambda>s. s \<in> set (accept nfa)) S then set_add dfaAccept k
                      else dfaAccept) statesMap []
              in if list_all (\<lambda>(k, e). is_literal e) dfaTransitions
                 then Returns
                        \<lparr>states = map (\<lambda>(k, S). Str k) statesMap,
                         alphabet = alphabet nfa,
                         start = Str startKey,
                         accept = map Str dfaAccept,
                         transitions = literals dfaTransitions\<rparr>
                 else ReturnsBuiltin
                        \<lparr>object_states = map (\<lambda>(k, S). Str k) statesMap,
                         object_alphabet = alphabet nfa,
                         object_start = Str startKey,
                         object_accept = map Str dfaAccept,
                         object_transitions = dfaTransitions\<rparr>))"

text \<open>
  \<open>transitions[S][symb]\<close> for a key \<open>S\<close> of the returned table, and what a reader of that
  table finds: whether every state has, for every symbol of the alphabet, an array of at
  most one destination, and whether the start, the accept states, the keys and the
  destinations it iterates over are states.
\<close>

fun entry_get :: "entry \<Rightarrow> string \<Rightarrow> halt + jsvalue" where
  "entry_get (Literal ob) symb = Inr (literal_get ob symb)"
| "entry_get (Builtin b) symb = builtin_get b symb"

definition object_deterministic :: "conversion_object \<Rightarrow> bool" where
  "object_deterministic r =
     list_all (\<lambda>(k, e). list_all (\<lambda>symb.
         case entry_get e symb of Inr (VArray ds) \<Rightarrow> length ds \<le> 1 | _ \<Rightarrow> False)
       (object_alphabet r)) (object_transitions r)"

definition object_integrity :: "conversion_object \<Rightarrow> bool" where
  "object_integrity r =
     (object_start r \<in> set (object_states r)
      \<and> set (object_accept r) \<subseteq> set (object_states r)
      \<and> list_all (\<lambda>(k, e). Str k \<in> set (object_states r) \<and> list_all (\<lambda>symb.
           case entry_get e symb of
             Inl h \<Rightarrow> False
           | Inr v \<Rightarrow> (case iterate v of
                         Inl h \<Rightarrow> False
                       | Inr ds \<Rightarrow> set ds \<subseteq> set (object_states r)))
         (object_alphabet r)) (object_transitions r))"

text \<open>
  An NFA with a state whose name holds a comma: from \<open>s\<close>, the symbol \<open>x\<close> leads to \<open>a\<close>
  and \<open>b\<close>, and \<open>y\<close> leads to the accepting state \<open>a,b\<close>.
\<close>

definition comma_nfa :: automaton where
  "comma_nfa = \<lparr>states = [Str ''s'', Str ''a'', Str ''b'', Str ''a,b''],
     alphabet = [''x'', ''y''], start = Str ''s'', accept = [Str ''a,b''],
     transitions = [(''s'', [(''x'', [Str ''a'', Str ''b'']), (''y'', [Str ''a,b''])])]\<rparr>"

definition comma_dfa :: automaton where
  "comma_dfa =
     \<lparr>states = [Str ''s'', Str ''a,b''], alphabet = [''x'', ''y''], start = Str ''s'',
      accept = [],
      transitions = [(''s'', [(''x'', [Str ''a,b'']), (''y'', [Str ''a,b''])]),
                     (''a,b'', [(''x'', []), (''y'', [])])]\<rparr>"

text \<open>
  An NFA whose only state has the name \<open>constructor\<close> and whose only symbol is \<open>name\<close>,
  without any transition, and the object that \<open>nfaToDfa\<close> returns for it:
  \<open>nfa.transitions["constructor"]\<close> is the function \<open>Object\<close>, its \<open>name\<close> is the string
  \<open>"Object"\<close>, and the loop takes the six characters for destinations;
  \<open>dfaTransitions["constructor"]\<close> is the function \<open>Object\<close> too, and the assignment to
  its \<open>name\<close> is ignored.
\<close>

definition constructor_nfa :: automaton where
  "constructor_nfa =
     \<lparr>states = [Str ''constructor''], alphabet = [''name''], start = Str ''constructor'',
      accept = [], transitions = []\<rparr>"

definition constructor_object :: conversion_object where
  "constructor_object =
     \<lparr>object_states = [Str ''constructor'', Str ''O,b,c,e,j,t''],
      object_alphabet = [''name''], object_start = Str ''constructor'', object_accept = [],
      object_transitions =
        [(''constructor'', Builtin (Method ''constructor'')),
         (''O,b,c,e,j,t'', Literal [(''name'', [])])]\<rparr>"

text \<open>
  Referential integrity of an automaton: the start state is a state, the accept states
  are states, and every source and every destination in \<open>transitions\<close> is a state.
\<close>

definition referential_integrity :: "automaton \<Rightarrow> bool" where
  "referential_integrity a =
     (start a \<in> set (states a) \<and> set (accept a) \<subseteq> set (states a) \<and>
      list_all (\<lambda>(k, bySymb). Str k \<in> set (states a) \<and>
                 list_all (\<lambda>(symb, ds). set ds \<subseteq> set (states a)) bySymb) (transitions a))"

subsection \<open>Invariants of the worklist loop\<close>

definition entries :: "'v obj obj \<Rightarrow> (string \<times> string \<times> 'v) set" where
  "entries tr = {(k, symb, v). \<exists>bySymb. (k, bySymb) \<in> set tr \<and> (symb, v) \<in> set bySymb}"

lemma set_obj_set: "set (obj_set ob k v) \<subseteq> insert (k, v) (set ob)"
  by (induction ob) (auto split: if_splits)

lemma obj_get_entries: "(symb, v) \<in> set (obj_get tr k) \<Longrightarrow> (k, symb, v) \<in> entries tr"
proof (cases "map_of tr k")
  case None
  assume "(symb, v) \<in> set (obj_get tr k)"
  with None show ?thesis by (simp add: obj_get_def)
next
  case (Some bySymb)
  assume "(symb, v) \<in> set (obj_get tr k)"
  with Some have "(symb, v) \<in> set bySymb" by (simp add: obj_get_def)
  moreover from Some have "(k, bySymb) \<in> set tr" by (rule map_of_SomeD)
  ultimately show ?thesis unfolding entries_def by blast
qed

lemma entries_set_entry:
  "entries (obj_set tr k (obj_set (obj_get tr k) symb v)) \<subseteq> insert (k, symb, v) (entries tr)"
proof
  fix e assume "e \<in> entries (obj_set tr k (obj_set (obj_get tr k) symb v))"
  then obtain k' s' v' bySymb where e: "e = (k', s', v')"
    and 1: "(k', bySymb) \<in> set (obj_set tr k (obj_set (obj_get tr k) symb v))"
    and 2: "(s', v') \<in> set bySymb"
    by (auto simp: entries_def)
  from 1 set_obj_set have "(k', bySymb) = (k, obj_set (obj_get tr k) symb v) \<or> (k', bySymb) \<in> set tr"
    by fastforce
  then show "e \<in> insert (k, symb, v) (entries tr)"
  proof
    assume a: "(k', bySymb) = (k, obj_set (obj_get tr k) symb v)"
    with 2 set_obj_set have "(s', v') = (symb, v) \<or> (s', v') \<in> set (obj_get tr k)"
      by fastforce
    with a e show ?thesis by (auto dest: obj_get_entries)
  next
    assume "(k', bySymb) \<in> set tr"
    with 2 e show ?thesis by (auto simp: entries_def)
  qed
qed

lemma deterministic_entries:
  "deterministic a \<longleftrightarrow> (\<forall>(k, symb, ds) \<in> entries (transitions a). length ds \<le> 1)"
  by (auto simp: deterministic_def entries_def list_all_iff)

lemma referential_integrity_entries:
  "referential_integrity a \<longleftrightarrow>
     start a \<in> set (states a) \<and> set (accept a) \<subseteq> set (states a)
     \<and> Str ` keys_of (transitions a) \<subseteq> set (states a)
     \<and> (\<forall>(k, symb, ds) \<in> entries (transitions a). set ds \<subseteq> set (states a))"
proof -
  have 1: "list_all (\<lambda>(k, bySymb). Str k \<in> A \<and> list_all (\<lambda>(symb, ds). set ds \<subseteq> A) bySymb) tr
    \<longleftrightarrow> Str ` keys_of tr \<subseteq> A \<and> (\<forall>(k, symb, ds) \<in> entries tr. set ds \<subseteq> A)"
    for A and tr :: "sid list obj obj"
  proof (induction tr)
    case Nil
    show ?case by (simp add: entries_def)
  next
    case (Cons x tr)
    obtain k bySymb where x: "x = (k, bySymb)" by (cases x)
    have "entries (x # tr) = {(k, symb, v) | symb v. (symb, v) \<in> set bySymb} \<union> entries tr"
      unfolding entries_def x by auto
    then have "(\<forall>(k, symb, ds) \<in> entries (x # tr). set ds \<subseteq> A)
      \<longleftrightarrow> list_all (\<lambda>(symb, ds). set ds \<subseteq> A) bySymb
          \<and> (\<forall>(k, symb, ds) \<in> entries tr. set ds \<subseteq> A)"
      unfolding list_all_iff by blast
    with Cons x show ?case by auto
  qed
  show ?thesis unfolding referential_integrity_def 1 by simp
qed

text \<open>The object literals of the table, and what the two assignments do to them.\<close>

lemma set_literals: "(k, ob) \<in> set (literals tr) \<longleftrightarrow> (k, Literal ob) \<in> set tr"
  by (induction tr rule: literals.induct) auto

lemma keys_of_literals: "keys_of (literals tr) \<subseteq> keys_of tr"
  by (induction tr rule: literals.induct) auto

lemma entries_literals:
  "entries (literals tr) = {(k, symb, v). \<exists>ob. (k, Literal ob) \<in> set tr \<and> (symb, v) \<in> set ob}"
  by (simp add: entries_def set_literals)

lemma ensure_entry_set:
  assumes "x \<in> set (ensure_entry tr k)"
  shows "x \<in> set tr \<or> x = (k, Literal []) \<or> (\<exists>b. x = (k, Builtin b))"
proof (cases "get_property tr k")
  case (Own e)
  with assms show ?thesis by (simp add: ensure_entry_def)
next
  case (Inherited b)
  with assms set_obj_set [of tr k "Builtin b"] show ?thesis
    by (cases b) (auto simp: ensure_entry_def)
next
  case Absent
  with assms set_obj_set [of tr k "Literal []"] show ?thesis by (auto simp: ensure_entry_def)
qed

lemma ensure_entry_entries: "entries (literals (ensure_entry tr k)) \<subseteq> entries (literals tr)"
proof
  fix x assume "x \<in> entries (literals (ensure_entry tr k))"
  then obtain k' s' v' ob' where x: "x = (k', s', v')"
    and 1: "(k', Literal ob') \<in> set (ensure_entry tr k)" and 2: "(s', v') \<in> set ob'"
    unfolding entries_literals by blast
  from ensure_entry_set [OF 1] 2 have "(k', Literal ob') \<in> set tr" by auto
  with 2 x show "x \<in> entries (literals tr)" unfolding entries_literals by blast
qed

lemma ensure_entry_keys: "keys_of (ensure_entry tr k) \<subseteq> insert k (keys_of tr)"
proof
  fix x assume "x \<in> keys_of (ensure_entry tr k)"
  then obtain e where "(x, e) \<in> set (ensure_entry tr k)" by (auto simp: keys_of_def)
  from ensure_entry_set [OF this] show "x \<in> insert k (keys_of tr)"
    by (auto intro: keys_of_member)
qed

lemma write_entry_keys: "write_entry tr k symb v = Inr tr' \<Longrightarrow> keys_of tr' \<subseteq> insert k (keys_of tr)"
  by (auto simp: write_entry_def split: property.splits entry.splits if_splits)

lemma write_entry_entries:
  assumes "write_entry tr k symb v = Inr tr'"
  shows "entries (literals tr') \<subseteq> insert (k, symb, v) (entries (literals tr))"
proof (cases "get_property tr k")
  case (Own e)
  show ?thesis
  proof (cases e)
    case (Literal ob)
    with Own assms have tr': "tr' = obj_set tr k (Literal (obj_set ob symb v))"
      by (simp add: write_entry_def split: if_splits)
    from Own Literal have "map_of tr k = Some (Literal ob)" by (simp add: get_property_Own)
    then have old: "(k, Literal ob) \<in> set tr" by (rule map_of_SomeD)
    show ?thesis
    proof
      fix x assume "x \<in> entries (literals tr')"
      then obtain k' s' v' ob' where x: "x = (k', s', v')"
        and 1: "(k', Literal ob') \<in> set tr'" and 2: "(s', v') \<in> set ob'"
        unfolding entries_literals by blast
      from 1 set_obj_set [of tr k "Literal (obj_set ob symb v)"]
      have "(k' = k \<and> ob' = obj_set ob symb v) \<or> (k', Literal ob') \<in> set tr"
        unfolding tr' by auto
      then show "x \<in> insert (k, symb, v) (entries (literals tr))"
      proof
        assume a: "k' = k \<and> ob' = obj_set ob symb v"
        with 2 set_obj_set [of ob symb v] have "(s', v') = (symb, v) \<or> (s', v') \<in> set ob"
          by auto
        with a x old show ?thesis unfolding entries_literals by blast
      next
        assume "(k', Literal ob') \<in> set tr"
        with 2 x show ?thesis unfolding entries_literals by blast
      qed
    qed
  next
    case (Builtin b)
    with Own assms have "tr' = tr" by (simp add: write_entry_def split: if_splits)
    then show ?thesis by blast
  qed
next
  case (Inherited b)
  with assms show ?thesis by (simp add: write_entry_def)
next
  case Absent
  with assms show ?thesis by (simp add: write_entry_def)
qed

text \<open>What an entry written by the subset construction holds.\<close>

definition dfa_entry :: "string set \<Rightarrow> sid list \<Rightarrow> bool" where
  "dfa_entry keys ds \<longleftrightarrow> ds = [] \<or> (\<exists>k \<in> keys. ds = [Str k])"

lemma dfa_entry_mono: "dfa_entry A ds \<Longrightarrow> A \<subseteq> B \<Longrightarrow> dfa_entry B ds"
  by (auto simp: dfa_entry_def)

definition loop_inv :: "(string \<times> sid list) list \<Rightarrow> sid list list \<Rightarrow> entry obj \<Rightarrow> bool" where
  "loop_inv sm st tr \<longleftrightarrow>
     (\<forall>S \<in> set st. keyOf S \<in> keys_of sm) \<and> keys_of tr \<subseteq> keys_of sm
     \<and> (\<forall>(k, symb, ds) \<in> entries (literals tr). dfa_entry (keys_of sm) ds)"

lemma expand_inv:
  "expand nfa S Skey syms (sm, st, tr) = Inr (sm', st', tr') \<Longrightarrow>
   loop_inv sm st tr \<Longrightarrow> Skey \<in> keys_of sm \<Longrightarrow>
   loop_inv sm' st' tr' \<and> keys_of sm \<subseteq> keys_of sm'"
proof (induction syms arbitrary: sm st tr)
  case Nil
  then show ?case by simp
next
  case (Cons symb rest)
  from Cons.prems(1) obtain T tr1 where c: "collect nfa symb S [] = Inr T"
    and w: "write_entry tr Skey symb (if T \<noteq> [] then [Str (keyOf T)] else []) = Inr tr1"
    by (auto split: sum.splits)
  let ?v = "if T \<noteq> [] then [Str (keyOf T)] else []"
  have keys_tr: "keys_of tr1 \<subseteq> keys_of sm"
    using write_entry_keys [OF w] Cons.prems(2,3) by (auto simp: loop_inv_def)
  note ent = write_entry_entries [OF w]
  show ?case
  proof (cases "T \<noteq> [] \<and> keyOf T \<notin> keys_of sm")
    case True
    let ?sm = "sm @ [(keyOf T, T)]"
    from Cons.prems(1) c w True
    have eq: "expand nfa S Skey rest (?sm, T # st, tr1) = Inr (sm', st', tr')" by simp
    have sub: "keys_of sm \<subseteq> keys_of ?sm" by auto
    have "\<forall>(k, symb, ds) \<in> entries (literals tr1). dfa_entry (keys_of ?sm) ds"
    proof -
      have "dfa_entry (keys_of ?sm) ?v" using True by (simp add: dfa_entry_def)
      moreover have "\<forall>(k, symb, ds) \<in> entries (literals tr). dfa_entry (keys_of ?sm) ds"
        using Cons.prems(2) dfa_entry_mono [OF _ sub] by (fastforce simp: loop_inv_def)
      ultimately show ?thesis using ent by blast
    qed
    moreover have "\<forall>S \<in> set (T # st). keyOf S \<in> keys_of ?sm"
      using Cons.prems(2) by (simp add: loop_inv_def)
    moreover have "keys_of tr1 \<subseteq> keys_of ?sm" using keys_tr sub by blast
    ultimately have "loop_inv ?sm (T # st) tr1"
      unfolding loop_inv_def by blast
    moreover have "Skey \<in> keys_of ?sm" using Cons.prems(3) by simp
    ultimately have "loop_inv sm' st' tr' \<and> keys_of ?sm \<subseteq> keys_of sm'"
      using Cons.IH [OF eq] by blast
    then show ?thesis using sub by blast
  next
    case False
    from Cons.prems(1) c w False
    have eq: "expand nfa S Skey rest (sm, st, tr1) = Inr (sm', st', tr')"
      by (simp split: if_splits)
    have "dfa_entry (keys_of sm) ?v" using False by (auto simp: dfa_entry_def)
    moreover have "\<forall>(k, symb, ds) \<in> entries (literals tr). dfa_entry (keys_of sm) ds"
      using Cons.prems(2) by (simp add: loop_inv_def)
    ultimately have "\<forall>(k, symb, ds) \<in> entries (literals tr1). dfa_entry (keys_of sm) ds"
      using ent by blast
    moreover have "\<forall>S \<in> set st. keyOf S \<in> keys_of sm"
      using Cons.prems(2) by (simp add: loop_inv_def)
    ultimately have "loop_inv sm st tr1"
      using keys_tr unfolding loop_inv_def by blast
    from Cons.IH [OF eq this Cons.prems(3)] show ?thesis .
  qed
qed

lemma loop_inv_result:
  "loop_inv sm st tr \<Longrightarrow> nfaToDfa_loop nfa sm st tr = Inr (sm', tr') \<Longrightarrow>
   loop_inv sm' [] tr' \<and> keys_of sm \<subseteq> keys_of sm'"
proof (induction nfa sm st tr rule: nfaToDfa_loop.induct)
  case (1 nfa statesMap dfaTransitions)
  from "1.prems"(2) have "sm' = statesMap" and "tr' = dfaTransitions"
    by (simp_all add: nfaToDfa_loop.simps(1))
  with "1.prems"(1) show ?case by simp
next
  case (2 nfa statesMap S stack dfaTransitions)
  let ?tr0 = "ensure_entry dfaTransitions (keyOf S)"
  from "2.prems"(2) obtain sm1 st1 tr1 where ex:
    "expand nfa S (keyOf S) (alphabet nfa) (statesMap, stack, ?tr0) = Inr (sm1, st1, tr1)"
    and rest: "nfaToDfa_loop nfa sm1 st1 tr1 = Inr (sm', tr')"
    by (auto simp: nfaToDfa_loop.simps(2) split: sum.splits)
  from "2.prems"(1) have key: "keyOf S \<in> keys_of statesMap" by (simp add: loop_inv_def)
  have "\<forall>S \<in> set stack. keyOf S \<in> keys_of statesMap"
    using "2.prems"(1) by (simp add: loop_inv_def)
  moreover have "keys_of ?tr0 \<subseteq> keys_of statesMap"
    using ensure_entry_keys [of dfaTransitions "keyOf S"] key "2.prems"(1)
    by (auto simp: loop_inv_def)
  moreover have "\<forall>(k, symb, ds) \<in> entries (literals ?tr0). dfa_entry (keys_of statesMap) ds"
    using ensure_entry_entries [of dfaTransitions "keyOf S"] "2.prems"(1)
    by (fastforce simp: loop_inv_def)
  ultimately have "loop_inv statesMap stack ?tr0" unfolding loop_inv_def by blast
  from expand_inv [OF ex this key]
  have inv1: "loop_inv sm1 st1 tr1" and sub1: "keys_of statesMap \<subseteq> keys_of sm1" by auto
  from "2.IH" [OF ex refl refl inv1 rest] sub1
  show ?case by blast
qed

lemma nfaToDfa_inv:
  assumes "nfaToDfa_loop nfa [(keyOf [start nfa], [start nfa])] [[start nfa]] [] = Inr (sm, tr)"
  shows "loop_inv sm [] tr" and "keyOf [start nfa] \<in> keys_of sm"
proof -
  have "loop_inv [(keyOf [start nfa], [start nfa])] [[start nfa]] []"
    by (simp add: loop_inv_def entries_def)
  from loop_inv_result [OF this assms] show "loop_inv sm [] tr" and "keyOf [start nfa] \<in> keys_of sm"
    by auto
qed

lemma accept_fold_subset:
  "set (fold (\<lambda>(k, S) dfaAccept. if P S then set_add dfaAccept k else dfaAccept) sm acc)
     \<subseteq> set acc \<union> keys_of sm"
proof (induction sm arbitrary: acc)
  case Nil
  show ?case by simp
next
  case (Cons x sm)
  obtain k S where x: "x = (k, S)" by (cases x)
  show ?case
  proof (cases "P S")
    case True
    have "set (set_add acc k) \<subseteq> insert k (set acc)" by (auto simp: set_add_def)
    with Cons [of "set_add acc k"] True x show ?thesis by auto
  next
    case False
    with Cons [of acc] x show ?thesis by auto
  qed
qed

lemma set_states_of_map: "set (map (\<lambda>(k, S). Str k) sm) = Str ` keys_of sm"
  by (induction sm) auto

text \<open>An automaton that \<open>nfaToDfa\<close> returns, in terms of the tables of the loop.\<close>

lemma nfaToDfa_Returns:
  assumes "nfaToDfa nfa = Returns dfa"
  obtains sm tr where
    "nfaToDfa_loop nfa [(keyOf [start nfa], [start nfa])] [[start nfa]] [] = Inr (sm, tr)"
    and "states dfa = map (\<lambda>(k, S). Str k) sm"
    and "start dfa = Str (keyOf [start nfa])"
    and "accept dfa = map Str (fold (\<lambda>(k, S) dfaAccept.
            if list_ex (\<lambda>s. s \<in> set (accept nfa)) S then set_add dfaAccept k
            else dfaAccept) sm [])"
    and "transitions dfa = literals tr"
proof (cases "nfaToDfa_loop nfa [(keyOf [start nfa], [start nfa])] [[start nfa]] []")
  case (Inl h)
  with assms show ?thesis by (simp add: nfaToDfa_def Let_def)
next
  case (Inr res)
  obtain sm tr where res: "res = (sm, tr)" by (cases res)
  from assms Inr res have lit: "list_all (\<lambda>(k, e). is_literal e) tr"
    by (auto simp: nfaToDfa_def Let_def split: if_splits)
  with assms Inr res have "dfa = \<lparr>states = map (\<lambda>(k, S). Str k) sm,
      alphabet = alphabet nfa, start = Str (keyOf [start nfa]),
      accept = map Str (fold (\<lambda>(k, S) dfaAccept.
            if list_ex (\<lambda>s. s \<in> set (accept nfa)) S then set_add dfaAccept k
            else dfaAccept) sm []),
      transitions = literals tr\<rparr>"
    by (simp add: nfaToDfa_def Let_def)
  with Inr res that show ?thesis by simp
qed

lemma nfaToDfa_Returns_deterministic:
  assumes "nfaToDfa nfa = Returns dfa"
  shows "deterministic dfa"
proof -
  from assms obtain sm tr where
    l: "nfaToDfa_loop nfa [(keyOf [start nfa], [start nfa])] [[start nfa]] [] = Inr (sm, tr)"
    and tr: "transitions dfa = literals tr"
    by (rule nfaToDfa_Returns)
  from nfaToDfa_inv(1) [OF l] have "\<forall>(k, symb, ds) \<in> entries (literals tr). length ds \<le> 1"
    by (auto simp: loop_inv_def dfa_entry_def)
  with tr show ?thesis by (simp add: deterministic_entries)
qed

lemma nfaToDfa_integrity:
  assumes "nfaToDfa nfa = Returns dfa"
  shows "referential_integrity dfa"
proof -
  from assms obtain sm tr where
    l: "nfaToDfa_loop nfa [(keyOf [start nfa], [start nfa])] [[start nfa]] [] = Inr (sm, tr)"
    and sel: "states dfa = map (\<lambda>(k, S). Str k) sm" "start dfa = Str (keyOf [start nfa])"
      "accept dfa = map Str (fold (\<lambda>(k, S) dfaAccept.
            if list_ex (\<lambda>s. s \<in> set (accept nfa)) S then set_add dfaAccept k
            else dfaAccept) sm [])"
      "transitions dfa = literals tr"
    by (rule nfaToDfa_Returns)
  note inv = nfaToDfa_inv [OF l]
  have st: "set (states dfa) = Str ` keys_of sm"
    using set_states_of_map [of sm] by (simp add: sel)
  have "start dfa \<in> set (states dfa)"
    unfolding st using inv(2) by (simp add: sel)
  moreover have "set (accept dfa) \<subseteq> set (states dfa)"
  proof -
    have "set (accept dfa) = Str ` set (fold (\<lambda>(k, S) dfaAccept.
            if list_ex (\<lambda>s. s \<in> set (accept nfa)) S then set_add dfaAccept k
            else dfaAccept) sm [])" by (simp add: sel(3))
    also have "\<dots> \<subseteq> Str ` keys_of sm"
      using accept_fold_subset [of "\<lambda>S. list_ex (\<lambda>s. s \<in> set (accept nfa)) S" sm "[]"]
      by auto
    finally show ?thesis unfolding st .
  qed
  moreover have "Str ` keys_of (transitions dfa) \<subseteq> set (states dfa)"
    unfolding st sel(4) using inv(1) keys_of_literals [of tr] by (auto simp: loop_inv_def)
  moreover have "\<forall>(k, symb, ds) \<in> entries (transitions dfa). set ds \<subseteq> set (states dfa)"
    unfolding st sel(4) using inv(1) by (fastforce simp: loop_inv_def dfa_entry_def)
  ultimately show ?thesis by (simp add: referential_integrity_entries)
qed

subsection \<open>Conversions that stay clear of the prototype\<close>

text \<open>
  The names that the conversion looks up in an object are the start state, the
  destinations listed in the transitions, the keys made of them, and the symbols of the
  alphabet. \<open>no_inherited_name\<close> says that neither a state name nor a symbol among them
  is the name of a property of \<open>Object.prototype\<close>.
\<close>

definition inherited :: "string \<Rightarrow> bool" where
  "inherited k \<longleftrightarrow> k = ''__proto__'' \<or> k \<in> set object_prototype_methods"

definition names :: "automaton \<Rightarrow> sid list" where
  "names nfa = start nfa # concat (map (\<lambda>(k, bySymb). concat (map snd bySymb)) (transitions nfa))"

definition no_inherited_name :: "automaton \<Rightarrow> bool" where
  "no_inherited_name nfa \<longleftrightarrow>
     list_all (\<lambda>q. \<not> inherited (toKey q)) (names nfa)
     \<and> list_all (\<lambda>symb. \<not> inherited symb) (alphabet nfa)"

lemma set_names: "set (names nfa) = insert (start nfa) (destinations nfa)"
  by (auto simp: names_def destinations_def split_def)

lemma get_property_plain:
  "\<not> inherited k \<Longrightarrow>
   get_property ob k = (case map_of ob k of Some v \<Rightarrow> Own v | None \<Rightarrow> Absent)"
  by (simp add: get_property_def inherited_def split: option.split)

lemma literal_get_plain:
  "\<not> inherited k \<Longrightarrow>
   literal_get ob k = (case map_of ob k of Some ds \<Rightarrow> VArray ds | None \<Rightarrow> VUndefined)"
  by (simp add: literal_get_def get_property_plain split: option.split)

lemma read_plain:
  assumes "\<not> inherited (toKey q)" and "\<not> inherited symb"
  shows "\<exists>v ms. read_moves nfa q symb = Inr v \<and> iterate v = Inr ms \<and> set ms \<subseteq> destinations nfa"
proof -
  have "\<exists>ob. read_moves nfa q symb = Inr (literal_get ob symb)"
    using assms(1)
    by (cases "map_of (transitions nfa) (toKey q)")
      (auto simp: read_moves_def get_property_plain)
  then obtain ob where r: "read_moves nfa q symb = Inr (literal_get ob symb)" ..
  show ?thesis
  proof (cases "map_of ob symb")
    case None
    with assms(2) have "literal_get ob symb = VUndefined" by (simp add: literal_get_plain)
    with r show ?thesis by simp
  next
    case (Some ds)
    with assms(2) have v: "literal_get ob symb = VArray ds" by (simp add: literal_get_plain)
    with r have "read_moves nfa q symb = Inr (VArray ds)" by simp
    from read_moves_VArray [OF this] r v show ?thesis by simp
  qed
qed

lemma collect_plain:
  assumes "\<not> inherited symb" and "destinations nfa \<subseteq> A"
  shows "\<forall>q \<in> set S. \<not> inherited (toKey q) \<Longrightarrow> set T \<subseteq> A \<Longrightarrow>
         \<exists>T'. collect nfa symb S T = Inr T' \<and> set T' \<subseteq> A"
proof (induction S arbitrary: T)
  case Nil
  then show ?case by simp
next
  case (Cons q S)
  from Cons.prems(1) have "\<not> inherited (toKey q)" by simp
  from read_plain [OF this assms(1), of nfa] obtain v ms where
    r: "read_moves nfa q symb = Inr v" and i: "iterate v = Inr ms"
    and m: "set ms \<subseteq> destinations nfa" by blast
  from m assms(2) Cons.prems(2) have "set (fold (\<lambda>t T'. set_add T' t) ms T) \<subseteq> A"
    by (auto simp: fold_set_add)
  from Cons.IH [OF _ this] Cons.prems(1) r i show ?case by simp
qed

text \<open>
  The key of a subset is the name of its one member or holds a comma, and no property of
  \<open>Object.prototype\<close> has a comma in its name.
\<close>

lemma inherited_no_comma: "inherited k \<Longrightarrow> CHR '','' \<notin> set k"
  by (auto simp: inherited_def object_prototype_methods_def)

lemma length_js_sort: "length (js_sort S) = length S"
proof -
  have "length [s. Str s \<leftarrow> S] + length (filter (\<lambda>x. x = Undefined) S) = length S"
    by (induction S) (auto split: sid.splits)
  then show ?thesis by (simp add: js_sort_def)
qed

lemma join_comma_two: "2 \<le> length xs \<Longrightarrow> CHR '','' \<in> set (join_comma xs)"
  by (cases xs rule: join_comma.cases) simp_all

lemma keyOf_singleton: "keyOf [q] = join_text q"
  by (cases q) (simp_all add: keyOf_def js_sort_def)

lemma keyOf_not_inherited:
  assumes "\<forall>q \<in> set S. \<not> inherited (toKey q)"
  shows "\<not> inherited (keyOf S)"
proof (cases S)
  case Nil
  then show ?thesis by (simp add: keyOf_def js_sort_def inherited_def object_prototype_methods_def)
next
  case (Cons q S')
  show ?thesis
  proof (cases S')
    case Nil
    show ?thesis
    proof (cases q)
      case Undefined
      with Cons Nil show ?thesis
        by (simp add: keyOf_singleton inherited_def object_prototype_methods_def)
    next
      case (Str s)
      with assms Cons Nil show ?thesis by (simp add: keyOf_singleton)
    qed
  next
    case (Cons q' S'')
    with \<open>S = q # S'\<close> have "2 \<le> length (map join_text (js_sort S))"
      by (simp add: length_js_sort)
    then have "CHR '','' \<in> set (keyOf S)" unfolding keyOf_def by (rule join_comma_two)
    with inherited_no_comma show ?thesis by blast
  qed
qed

lemma map_of_obj_set_same: "map_of (obj_set ob k v) k = Some v"
  by (induction ob) auto

definition all_literal :: "entry obj \<Rightarrow> bool" where
  "all_literal tr \<longleftrightarrow> list_all (\<lambda>(k, e). is_literal e) tr"

lemma all_literal_obj_set: "all_literal tr \<Longrightarrow> all_literal (obj_set tr k (Literal ob))"
  using set_obj_set [of tr k "Literal ob"] unfolding all_literal_def list_all_iff by fastforce

lemma all_literal_map_of: "all_literal tr \<Longrightarrow> map_of tr k = Some e \<Longrightarrow> \<exists>ob. e = Literal ob"
proof -
  assume a: "all_literal tr" and "map_of tr k = Some e"
  then have "(k, e) \<in> set tr" by (simp add: map_of_SomeD)
  with a have "is_literal e" unfolding all_literal_def list_all_iff by fastforce
  then show ?thesis by (cases e) simp_all
qed

lemma write_plain:
  assumes "map_of tr k = Some (Literal ob)" and "\<not> inherited symb"
  shows "write_entry tr k symb v = Inr (obj_set tr k (Literal (obj_set ob symb v)))"
  using assms by (auto simp: write_entry_def get_property_def inherited_def)

lemma expand_plain:
  assumes plain: "no_inherited_name nfa" and S: "set S \<subseteq> set (names nfa)"
  shows "set syms \<subseteq> set (alphabet nfa) \<Longrightarrow> \<forall>S' \<in> set st. set S' \<subseteq> set (names nfa) \<Longrightarrow>
         all_literal tr \<Longrightarrow> map_of tr Skey = Some (Literal ob) \<Longrightarrow>
         \<exists>sm' st' tr'. expand nfa S Skey syms (sm, st, tr) = Inr (sm', st', tr')
           \<and> (\<forall>S' \<in> set st'. set S' \<subseteq> set (names nfa)) \<and> all_literal tr'"
proof (induction syms arbitrary: sm st tr ob)
  case Nil
  then show ?case by simp
next
  case (Cons symb rest)
  from plain Cons.prems(1) have ns: "\<not> inherited symb"
    by (auto simp: no_inherited_name_def list_all_iff)
  from plain S have nq: "\<forall>q \<in> set S. \<not> inherited (toKey q)"
    by (auto simp: no_inherited_name_def list_all_iff)
  have "destinations nfa \<subseteq> set (names nfa)" by (auto simp: set_names)
  from collect_plain [OF ns this nq, of "[]"] obtain T where
    c: "collect nfa symb S [] = Inr T" and T: "set T \<subseteq> set (names nfa)" by auto
  let ?v = "if T \<noteq> [] then [Str (keyOf T)] else []"
  let ?tr = "obj_set tr Skey (Literal (obj_set ob symb ?v))"
  note w = write_plain [OF Cons.prems(4) ns, of ?v]
  have lit: "all_literal ?tr" using Cons.prems(3) by (rule all_literal_obj_set)
  have own: "map_of ?tr Skey = Some (Literal (obj_set ob symb ?v))" by (rule map_of_obj_set_same)
  from Cons.prems(1) have rest: "set rest \<subseteq> set (alphabet nfa)" by simp
  show ?case
  proof (cases "T \<noteq> [] \<and> keyOf T \<notin> keys_of sm")
    case True
    from Cons.prems(2) T have "\<forall>S' \<in> set (T # st). set S' \<subseteq> set (names nfa)" by simp
    from Cons.IH [OF rest this lit own, of "sm @ [(keyOf T, T)]"] c w True
    show ?thesis by simp
  next
    case False
    from Cons.IH [OF rest Cons.prems(2) lit own, of sm] c w False
    show ?thesis by (simp split: if_splits)
  qed
qed

lemma loop_plain:
  assumes plain: "no_inherited_name nfa"
  shows "\<forall>S \<in> set st. set S \<subseteq> set (names nfa) \<Longrightarrow> all_literal tr \<Longrightarrow>
         \<exists>sm' tr'. nfaToDfa_loop nfa sm st tr = Inr (sm', tr') \<and> all_literal tr'"
  using plain
proof (induction nfa sm st tr rule: nfaToDfa_loop.induct)
  case (1 nfa statesMap dfaTransitions)
  then show ?case by (simp add: nfaToDfa_loop.simps(1))
next
  case (2 nfa statesMap S stack dfaTransitions)
  let ?k = "keyOf S"
  let ?tr0 = "ensure_entry dfaTransitions ?k"
  from "2.prems"(1) have S: "set S \<subseteq> set (names nfa)"
    and st: "\<forall>S' \<in> set stack. set S' \<subseteq> set (names nfa)" by simp_all
  from "2.prems"(3) S have "\<forall>q \<in> set S. \<not> inherited (toKey q)"
    by (auto simp: no_inherited_name_def list_all_iff)
  then have nk: "\<not> inherited ?k" by (rule keyOf_not_inherited)
  have "\<exists>ob. map_of ?tr0 ?k = Some (Literal ob) \<and> all_literal ?tr0"
  proof (cases "map_of dfaTransitions ?k")
    case None
    with nk have "?tr0 = obj_set dfaTransitions ?k (Literal [])"
      by (simp add: ensure_entry_def get_property_plain)
    with "2.prems"(2) show ?thesis by (simp add: map_of_obj_set_same all_literal_obj_set)
  next
    case (Some e)
    with nk have "?tr0 = dfaTransitions" by (simp add: ensure_entry_def get_property_plain)
    with Some "2.prems"(2) all_literal_map_of [OF "2.prems"(2) Some] show ?thesis by auto
  qed
  then obtain ob where own: "map_of ?tr0 ?k = Some (Literal ob)" and lit: "all_literal ?tr0"
    by blast
  from expand_plain [OF "2.prems"(3) S subset_refl st lit own, of statesMap]
  obtain sm1 st1 tr1 where
    ex: "expand nfa S ?k (alphabet nfa) (statesMap, stack, ?tr0) = Inr (sm1, st1, tr1)"
    and st1: "\<forall>S' \<in> set st1. set S' \<subseteq> set (names nfa)" and lit1: "all_literal tr1" by blast
  from "2.IH" [OF ex refl refl st1 lit1 "2.prems"(3)] ex
  show ?case by (simp add: nfaToDfa_loop.simps(2))
qed

lemma nfaToDfa_returns:
  assumes "no_inherited_name nfa"
  shows "\<exists>dfa. nfaToDfa nfa = Returns dfa"
proof -
  have "\<forall>S \<in> set [[start nfa]]. set S \<subseteq> set (names nfa)" by (simp add: names_def)
  moreover have "all_literal []" by (simp add: all_literal_def)
  ultimately obtain sm tr where
    "nfaToDfa_loop nfa [(keyOf [start nfa], [start nfa])] [[start nfa]] [] = Inr (sm, tr)"
    and "all_literal tr"
    using loop_plain [OF assms] by blast
  then show ?thesis by (simp add: nfaToDfa_def Let_def all_literal_def)
qed

text \<open>
  C6 (for every NFA input, every transition entry of the automaton that \<open>nfaToDfa\<close>
  returns is an array of length 0 or 1) fails on the code. The loader accepts
  \<open>constructor_nfa\<close>; for it the returned table holds, for the state \<open>constructor\<close>, the
  function \<open>Object\<close>, and its entry for the symbol \<open>name\<close> is the string \<open>"Object"\<close>, not
  an array of at most one state. The comment above the assignment in the loop says that in
  the DFA each transition has one target state, and the README that the result is the
  deterministic form of the NFA.
\<close>

theorem nfaToDfa_returns_builtin_function:
  "nfaToDfa constructor_nfa = ReturnsBuiltin constructor_object
   \<and> entry_get (Builtin (Method ''constructor'')) ''name'' = Inr (VString ''Object'')
   \<and> \<not> object_deterministic constructor_object"
  by code_simp

text \<open>
  Away from the inherited names the conversion does what C6 says: every automaton that
  \<open>nfaToDfa\<close> returns with object literals only in its transition table has arrays of
  length 0 or 1 as transition entries; and \<open>nfaToDfa\<close> returns such an automaton (the loop
  ends, and nothing is thrown) for every NFA in which neither the name of the start state
  or of a destination nor a symbol of the alphabet is the name of a property of
  \<open>Object.prototype\<close>.
\<close>

theorem nfaToDfa_deterministic:
  "(nfaToDfa nfa = Returns dfa \<longrightarrow> deterministic dfa)
   \<and> (no_inherited_name nfa \<longrightarrow> (\<exists>d. nfaToDfa nfa = Returns d))"
  using nfaToDfa_Returns_deterministic [of nfa dfa] nfaToDfa_returns [of nfa] by blast

theorem nfaToDfa_deterministic_witness:
  "no_inherited_name comma_nfa \<and> nfaToDfa comma_nfa = Returns comma_dfa
   \<and> deterministic comma_dfa"
proof -
  have "no_inherited_name comma_nfa" by code_simp
  moreover have "nfaToDfa comma_nfa = Returns comma_dfa" by code_simp
  ultimately show ?thesis using nfaToDfa_deterministic [of comma_nfa comma_dfa] by blast
qed

text \<open>
  C4 fails on the code: the subsets \<open>{"a,b"}\<close> and \<open>{"a", "b"}\<close> have different members
  and the same key, because the separator of \<open>join\<close> may occur in a state name.
\<close>

theorem keyOf_collision:
  "keyOf [Str ''a,b''] = keyOf [Str ''a'', Str ''b'']
   \<and> set [Str ''a,b''] \<noteq> set [Str ''a'', Str ''b'']"
  by (simp add: keyOf_def js_sort_def)

text \<open>
  C1 fails on the code, by the same collision: in \<open>comma_nfa\<close> the subsets reached by
  \<open>x\<close> and by \<open>y\<close> get one key, the DFA keeps the first of them, which holds no accept
  state, and the word \<open>y\<close>, which the NFA accepts, is rejected by the DFA.
\<close>

theorem nfaToDfa_changes_language:
  "nfa_accepts comma_nfa ''y'' = \<lparr>accepted = True, reason = ReachedAcceptState\<rparr>
   \<and> nfaToDfa comma_nfa =
       Returns \<lparr>states = [Str ''s'', Str ''a,b''], alphabet = [''x'', ''y''], start = Str ''s'',
                accept = [],
                transitions = [(''s'', [(''x'', [Str ''a,b'']), (''y'', [Str ''a,b''])]),
                               (''a,b'', [(''x'', []), (''y'', [])])]\<rparr>
   \<and> nfa_accepts
        \<lparr>states = [Str ''s'', Str ''a,b''], alphabet = [''x'', ''y''], start = Str ''s'',
         accept = [],
         transitions = [(''s'', [(''x'', [Str ''a,b'']), (''y'', [Str ''a,b''])]),
                        (''a,b'', [(''x'', []), (''y'', [])])]\<rparr> ''y''
       = \<lparr>accepted = False, reason = NoAcceptStateReached\<rparr>"
  by code_simp

section \<open>Building the trie of a finite language (DAFSA.js)\<close>

text \<open>
  The language description \<open>{alphabet, accept}\<close>: here \<open>accept\<close> is the list of words. The
  two arrays are typed, so of the assertions of \<open>buildTrieDFA\<close> there remain the non-empty
  alphabet and the symbols of the words; a failed \<open>assert\<close> throws.
\<close>

record language =
  lang_alphabet :: "string list"
  lang_accept :: "string list"

datatype build_error =
    AlphabetNotNonEmptyArray
  | WordSymbolNotInAlphabet string char

text \<open>The validation loops: the first word with a symbol outside the alphabet, and that symbol.\<close>

fun first_bad_symbol :: "string list \<Rightarrow> string list \<Rightarrow> (string \<times> char) option" where
  "first_bad_symbol alpha [] = None"
| "first_bad_symbol alpha (w # ws) =
     (case find (\<lambda>ch. [ch] \<notin> set alpha) w of
        Some ch \<Rightarrow> Some (w, ch)
      | None \<Rightarrow> first_bad_symbol alpha ws)"

text \<open>\<open>newId\<close>: the name \<open>q\<close> followed by the decimal digits of the counter.\<close>

definition digit :: "nat \<Rightarrow> char" where
  "digit d = char_of (48 + d)"

function dec :: "nat \<Rightarrow> string" where
  "dec n = (if n < 10 then [digit n] else dec (n div 10) @ [digit (n mod 10)])"
  by pat_completeness auto
termination
  by (relation "measure id") auto

declare dec.simps [simp del]

definition newId :: "nat \<Rightarrow> string" where
  "newId nextId = ''q'' @ dec nextId"

text \<open>
  A trie node \<open>{id, edges, final}\<close>; \<open>edges\<close> is a \<open>Map\<close> from symbol to child id and \<open>nodes\<close>
  a \<open>Map\<close> from id to node, both in insertion order. The state of the builder is the
  counter \<open>nextId\<close> and \<open>nodes\<close>.
\<close>

record node =
  nid :: string
  edges :: "(string \<times> string) list"
  final :: bool

type_synonym trie_state = "nat \<times> (string \<times> node) list"

definition ensureNode :: "(string \<times> node) list \<Rightarrow> string \<Rightarrow> (string \<times> node) list \<times> node" where
  "ensureNode nodes i =
     (case map_of nodes i of
        Some n \<Rightarrow> (nodes, n)
      | None \<Rightarrow> (nodes @ [(i, \<lparr>nid = i, edges = [], final = False\<rparr>)],
                 \<lparr>nid = i, edges = [], final = False\<rparr>))"

text \<open>A write to a field of the node stored under \<open>i\<close>.\<close>

definition update_node :: "(string \<times> node) list \<Rightarrow> string \<Rightarrow> (node \<Rightarrow> node) \<Rightarrow> (string \<times> node) list" where
  "update_node nodes i f = map (\<lambda>(k, n). if k = i then (k, f n) else (k, n)) nodes"

text \<open>
  One round of the inner loop: \<open>next = node.edges.get(ch) || newId()\<close>, the edge is set
  when \<open>ch\<close> had none, and the node of \<open>next\<close> is ensured.
\<close>

definition insert_char :: "trie_state \<Rightarrow> string \<Rightarrow> char \<Rightarrow> trie_state \<times> string" where
  "insert_char st v ch =
     (case st of (nextId, nodes) \<Rightarrow>
      case ensureNode nodes v of (nodes1, node) \<Rightarrow>
        (case map_of (edges node) [ch] of
           Some next \<Rightarrow>
             if next \<noteq> [] then ((nextId, fst (ensureNode nodes1 next)), next)
             else ((nextId + 1, fst (ensureNode nodes1 (newId nextId))), newId nextId)
         | None \<Rightarrow>
             (let next = newId nextId;
                  nodes2 = update_node nodes1 v (\<lambda>n. n\<lparr>edges := obj_set (edges n) [ch] next\<rparr>)
              in ((nextId + 1, fst (ensureNode nodes2 next)), next))))"

fun insert_chars :: "trie_state \<Rightarrow> string \<Rightarrow> string \<Rightarrow> trie_state \<times> string" where
  "insert_chars st v [] = (st, v)"
| "insert_chars st v (ch # rest) =
     (case insert_char st v ch of (st', v') \<Rightarrow> insert_chars st' v' rest)"

text \<open>The body of \<open>for (const w of accept)\<close>, ending with \<open>nodes.get(v).final = true\<close>.\<close>

definition insert_word :: "string \<Rightarrow> string \<Rightarrow> trie_state \<Rightarrow> trie_state" where
  "insert_word start0 w st =
     (case insert_chars st start0 w of
        ((nextId, nodes), v) \<Rightarrow> (nextId, update_node nodes v (\<lambda>n. n\<lparr>final := True\<rparr>)))"

text \<open>The conversion loop that fills \<open>dfa.transitions\<close>.\<close>

definition trie_transitions :: "(string \<times> node) list \<Rightarrow> sid list obj obj" where
  "trie_transitions nodes =
     fold (\<lambda>(k, n) tr.
             fold (\<lambda>(symb, to) tr'. obj_set tr' (nid n) (obj_set (obj_get tr' (nid n)) symb [Str to]))
                  (edges n) (obj_set tr (nid n) []))
          nodes []"

definition buildTrieDFA :: "language \<Rightarrow> build_error + automaton" where
  "buildTrieDFA language =
     (if lang_alphabet language = [] then Inl AlphabetNotNonEmptyArray
      else case first_bad_symbol (lang_alphabet language) (lang_accept language) of
        Some (w, ch) \<Rightarrow> Inl (WordSymbolNotInAlphabet w ch)
      | None \<Rightarrow>
          (let start0 = newId 0;
               nodes0 = fst (ensureNode [] start0)
           in case fold (insert_word start0) (lang_accept language) (1, nodes0) of
                (nextId, nodes) \<Rightarrow>
                  Inr \<lparr>states = map (\<lambda>(k, n). Str k) nodes,
                       alphabet = fold (\<lambda>x A. set_add A x) (lang_alphabet language) [],
                       start = Str start0,
                       accept = map (\<lambda>(k, n). Str (nid n)) (filter (\<lambda>(k, n). final n) nodes),
                       transitions = trie_transitions nodes\<rparr>))"

section \<open>Minimising an acyclic automaton (DAFSA.js)\<close>

text \<open>
  \<open>Object.keys(edges)\<close>, up to the order of the keys, which the code sorts or does not
  depend on; \<open>edges[a][0]\<close>, which is \<open>undefined\<close> for an empty array; and \<open>map.get(k)\<close>.
\<close>

definition object_keys :: "'v obj \<Rightarrow> string list" where
  "object_keys ob = remdups (map fst ob)"

definition first_dest :: "sid list obj \<Rightarrow> string \<Rightarrow> sid" where
  "first_dest es a = (case map_of es a of Some (d # _) \<Rightarrow> d | _ \<Rightarrow> Undefined)"

definition map_get :: "('k \<times> sid) list \<Rightarrow> 'k \<Rightarrow> sid" where
  "map_get m k = (case map_of m k of None \<Rightarrow> Undefined | Some v \<Rightarrow> v)"

text \<open>
  The memoised recursion \<open>sig\<close>, with the loop over the sorted symbols as \<open>sig_parts\<close>.
  The recursion follows the transitions, so it need not end: the first argument bounds its
  depth, and \<open>None\<close> means that the bound was reached.
\<close>

fun sig :: "nat \<Rightarrow> automaton \<Rightarrow> (sid \<times> string) list \<Rightarrow> sid \<Rightarrow> (string \<times> (sid \<times> string) list) option"
and sig_parts :: "nat \<Rightarrow> automaton \<Rightarrow> sid list obj \<Rightarrow> string list \<Rightarrow> (sid \<times> string) list \<Rightarrow> string list
     \<Rightarrow> (string list \<times> (sid \<times> string) list) option" where
  "sig 0 dfa memo s = None"
| "sig (Suc fuel) dfa memo s =
     (case map_of memo s of
        Some signature \<Rightarrow> Some (signature, memo)
      | None \<Rightarrow>
          (let es = obj_get (transitions dfa) (toKey s);
               syms = sort (object_keys es)
           in case sig_parts fuel dfa es syms memo [] of
                None \<Rightarrow> None
              | Some (parts, memo') \<Rightarrow>
                  (let isFinal = (if s \<in> set (accept dfa) then ''1'' else ''0'');
                       signature = isFinal @ ''|'' @ join_comma parts
                   in Some (signature, obj_set memo' s signature))))"
| "sig_parts fuel dfa es [] memo parts = Some (parts, memo)"
| "sig_parts fuel dfa es (a # rest) memo parts =
     (case sig fuel dfa memo (first_dest es a) of
        None \<Rightarrow> None
      | Some (signature, memo') \<Rightarrow> sig_parts fuel dfa es rest memo' (parts @ [a @ ''>'' @ signature]))"

text \<open>\<open>dfa.states.forEach(sig)\<close>\<close>

fun sig_all :: "nat \<Rightarrow> automaton \<Rightarrow> sid list \<Rightarrow> (sid \<times> string) list \<Rightarrow> (sid \<times> string) list option" where
  "sig_all fuel dfa [] memo = Some memo"
| "sig_all fuel dfa (s # ss) memo =
     (case sig fuel dfa memo s of None \<Rightarrow> None | Some (signature, memo') \<Rightarrow> sig_all fuel dfa ss memo')"

text \<open>
  The loop that fills \<open>rep\<close> (signature to first state with it) and \<open>mapToRep\<close>. A
  signature is \<open>memo.get(s)\<close>, which is \<open>undefined\<close> (\<open>None\<close>) for a missing key.
\<close>

definition choose_reps ::
  "(sid \<times> string) list \<Rightarrow> sid list \<Rightarrow> (string option \<times> sid) list \<times> (sid \<times> sid) list" where
  "choose_reps memo ss =
     fold (\<lambda>s (rep, mapToRep).
             (let signature = map_of memo s;
                  rep' = (if signature \<in> keys_of rep then rep else rep @ [(signature, s)])
              in (rep', obj_set mapToRep s (map_get rep' signature))))
          ss ([], [])"

definition minimizeAcyclicDFA :: "nat \<Rightarrow> automaton \<Rightarrow> automaton option" where
  "minimizeAcyclicDFA fuel dfa =
     (case sig_all fuel dfa (states dfa) [] of
        None \<Rightarrow> None
      | Some memo \<Rightarrow>
          (case choose_reps memo (states dfa) of
             (rep, mapToRep) \<Rightarrow>
               (let newStatesSet = fold (\<lambda>x A. set_add A x) (map snd rep) [];
                    newStart = map_get mapToRep (start dfa);
                    newAccept = filter (\<lambda>s. s \<in> set (accept dfa)) newStatesSet;
                    newTransitions =
                      fold (\<lambda>s tr.
                              (let es = obj_get (transitions dfa) (toKey s)
                               in fold (\<lambda>a tr'. obj_set tr' (toKey s)
                                                  (obj_set (obj_get tr' (toKey s)) a
                                                     [map_get mapToRep (first_dest es a)]))
                                       (object_keys es) (obj_set tr (toKey s) [])))
                           newStatesSet []
                in Some \<lparr>states = newStatesSet, alphabet = alphabet dfa, start = newStart,
                         accept = newAccept, transitions = newTransitions\<rparr>)))"

section \<open>Correctness of the trie\<close>

subsection \<open>Generic facts on association lists\<close>

lemma map_of_obj_set: "map_of (obj_set ob k v) = (map_of ob)(k \<mapsto> v)"
  by (induction ob) (auto simp: fun_eq_iff)

lemma map_fst_obj_set:
  "map fst (obj_set ob k v) = (if k \<in> keys_of ob then map fst ob else map fst ob @ [k])"
  by (induction ob) (force simp: keys_of_def)+

lemma distinct_obj_set: "distinct (map fst ob) \<Longrightarrow> distinct (map fst (obj_set ob k v))"
  by (simp add: map_fst_obj_set keys_of_def)

lemma keys_of_map_of: "k \<in> keys_of ob \<longleftrightarrow> map_of ob k \<noteq> None"
  by (simp add: keys_of_def map_of_eq_None_iff)

lemma map_fst_update_node: "map fst (update_node nodes i f) = map fst nodes"
  by (induction nodes) (auto simp: update_node_def)

lemma keys_of_update_node [simp]: "keys_of (update_node nodes i f) = keys_of nodes"
  using map_fst_update_node [of nodes i f] by (metis keys_of_def set_map)

lemma map_of_update_node:
  "map_of (update_node nodes i f) x = (if x = i then map_option f (map_of nodes i) else map_of nodes x)"
  by (induction nodes) (auto simp: update_node_def)

lemma set_update_node:
  "(k, n) \<in> set (update_node nodes i f) \<Longrightarrow>
   \<exists>m. (k, m) \<in> set nodes \<and> n = (if k = i then f m else m)"
  by (induction nodes) (auto simp: update_node_def split: if_splits)

lemma map_of_snoc_fresh:
  "k \<notin> keys_of xs \<Longrightarrow> map_of (xs @ [(k, n)]) x = (if x = k then Some n else map_of xs x)"
  by (auto simp: map_add_def keys_of_map_of split: option.splits)

subsection \<open>Decimal names are injective\<close>

definition undec :: "string \<Rightarrow> nat" where
  "undec s = foldl (\<lambda>a c. 10 * a + (of_char c - 48)) 0 s"

lemma of_char_digit: "d < 10 \<Longrightarrow> of_char (digit d) = 48 + d"
  by (simp add: digit_def)

lemma undec_dec: "undec (dec n) = n"
proof (induction n rule: dec.induct)
  case (1 n)
  show ?case
  proof (cases "n < 10")
    case True
    then show ?thesis by (subst dec.simps) (simp add: undec_def of_char_digit)
  next
    case False
    have "n mod 10 < 10" by simp
    with False "1.IH" show ?thesis
      by (subst dec.simps) (simp add: undec_def of_char_digit)
  qed
qed

lemma newId_inj: "newId a = newId b \<Longrightarrow> a = b"
  by (metis newId_def same_append_eq undec_dec)

lemma newId_nonempty: "newId a \<noteq> []"
  by (simp add: newId_def)

subsection \<open>The trie as a labelled tree\<close>

definition kids :: "(string \<times> node) list \<Rightarrow> string \<Rightarrow> string \<Rightarrow> string option" where
  "kids nodes v c = (case map_of nodes v of None \<Rightarrow> None | Some n \<Rightarrow> map_of (edges n) c)"

definition fin :: "(string \<times> node) list \<Rightarrow> string \<Rightarrow> bool" where
  "fin nodes v = (case map_of nodes v of None \<Rightarrow> False | Some n \<Rightarrow> final n)"

fun walk :: "(string \<times> node) list \<Rightarrow> string \<Rightarrow> string \<Rightarrow> string option" where
  "walk nodes v [] = Some v"
| "walk nodes v (ch # w) = (case kids nodes v [ch] of None \<Rightarrow> None | Some y \<Rightarrow> walk nodes y w)"

definition trie_ok :: "(string \<Rightarrow> string) \<Rightarrow> trie_state \<Rightarrow> bool" where
  "trie_ok path st \<longleftrightarrow>
     (case st of (nextId, nodes) \<Rightarrow>
        0 < nextId \<and> distinct (map fst nodes) \<and> keys_of nodes = newId ` {..<nextId}
        \<and> (\<forall>(k, n) \<in> set nodes. nid n = k \<and> distinct (map fst (edges n)))
        \<and> path (newId 0) = []
        \<and> (\<forall>x c y. kids nodes x c = Some y \<longrightarrow>
              y \<in> keys_of nodes \<and> (\<exists>ch. c = [ch] \<and> path y = path x @ [ch]))
        \<and> (\<forall>y \<in> keys_of nodes. y \<noteq> newId 0 \<longrightarrow> (\<exists>x c. kids nodes x c = Some y)))"

lemma kids_key: "kids nodes x c = Some y \<Longrightarrow> x \<in> keys_of nodes"
  by (auto simp: kids_def keys_of_map_of split: option.splits)

lemma ensureNode_present:
  "map_of nodes i = Some n \<Longrightarrow> ensureNode nodes i = (nodes, n)"
  by (simp add: ensureNode_def)

lemma insert_char_existing:
  assumes "map_of nodes v = Some n" and "map_of (edges n) [ch] = Some next"
    and "next \<noteq> []" and "next \<in> keys_of nodes"
  shows "insert_char (nextId, nodes) v ch = ((nextId, nodes), next)"
proof -
  from assms(4) obtain m where "map_of nodes next = Some m"
    by (auto simp: keys_of_map_of)
  with assms(1-3) show ?thesis
    by (simp add: insert_char_def ensureNode_present)
qed

lemma insert_char_fresh:
  assumes "map_of nodes v = Some n" and "map_of (edges n) [ch] = None"
    and "newId nextId \<notin> keys_of nodes"
  shows "insert_char (nextId, nodes) v ch =
     ((Suc nextId,
       update_node nodes v (\<lambda>n. n\<lparr>edges := obj_set (edges n) [ch] (newId nextId)\<rparr>)
         @ [(newId nextId, \<lparr>nid = newId nextId, edges = [], final = False\<rparr>)]),
      newId nextId)"
proof -
  have "map_of (update_node nodes v (\<lambda>n. n\<lparr>edges := obj_set (edges n) [ch] (newId nextId)\<rparr>))
          (newId nextId) = None"
    using assms(3) keys_of_map_of [of "newId nextId"
        "update_node nodes v (\<lambda>n. n\<lparr>edges := obj_set (edges n) [ch] (newId nextId)\<rparr>)"]
    by simp
  with assms(1,2) show ?thesis
    by (simp add: insert_char_def ensureNode_present Let_def) (simp add: ensureNode_def)
qed

lemma trie_okD:
  assumes "trie_ok path (nextId, nodes)"
  shows "0 < nextId" and "distinct (map fst nodes)" and "keys_of nodes = newId ` {..<nextId}"
    and "\<And>k n. (k, n) \<in> set nodes \<Longrightarrow> nid n = k \<and> distinct (map fst (edges n))"
    and "path (newId 0) = []"
    and "\<And>x c y. kids nodes x c = Some y \<Longrightarrow>
           y \<in> keys_of nodes \<and> (\<exists>ch. c = [ch] \<and> path y = path x @ [ch])"
    and "\<And>y. y \<in> keys_of nodes \<Longrightarrow> y \<noteq> newId 0 \<Longrightarrow> \<exists>x c. kids nodes x c = Some y"
proof -
  note a = assms [unfolded trie_ok_def prod.case]
  from a show "0 < nextId" by (elim conjE)
  from a show "distinct (map fst nodes)" by (elim conjE)
  from a show "keys_of nodes = newId ` {..<nextId}" by (elim conjE)
  from a show "path (newId 0) = []" by (elim conjE)
  from a have "\<forall>(k, n) \<in> set nodes. nid n = k \<and> distinct (map fst (edges n))" by (elim conjE)
  then show "\<And>k n. (k, n) \<in> set nodes \<Longrightarrow> nid n = k \<and> distinct (map fst (edges n))"
    by blast
  from a have "\<forall>x c y. kids nodes x c = Some y \<longrightarrow>
              y \<in> keys_of nodes \<and> (\<exists>ch. c = [ch] \<and> path y = path x @ [ch])" by (elim conjE)
  then show "\<And>x c y. kids nodes x c = Some y \<Longrightarrow>
           y \<in> keys_of nodes \<and> (\<exists>ch. c = [ch] \<and> path y = path x @ [ch])" by blast
  from a have "\<forall>y \<in> keys_of nodes. y \<noteq> newId 0 \<longrightarrow> (\<exists>x c. kids nodes x c = Some y)"
    by (elim conjE)
  then show "\<And>y. y \<in> keys_of nodes \<Longrightarrow> y \<noteq> newId 0 \<Longrightarrow> \<exists>x c. kids nodes x c = Some y"
    by blast
qed

lemma trie_ok_root: "trie_ok path (nextId, nodes) \<Longrightarrow> newId 0 \<in> keys_of nodes"
  using trie_okD(1,3) by blast

lemma trie_ok_fresh: "trie_ok path (nextId, nodes) \<Longrightarrow> newId nextId \<notin> keys_of nodes"
proof
  assume ok: "trie_ok path (nextId, nodes)" and "newId nextId \<in> keys_of nodes"
  then have "newId nextId \<in> newId ` {..<nextId}" using trie_okD(3) by blast
  then obtain k where "k < nextId" and "newId nextId = newId k" by auto
  then show False using newId_inj by blast
qed

lemma step_fresh:
  assumes ok: "trie_ok path (nextId, nodes)" and v: "map_of nodes v = Some n"
    and none: "map_of (edges n) [ch] = None"
    and nx: "nxt = newId nextId"
    and nodes': "nodes' = update_node nodes v (\<lambda>n. n\<lparr>edges := obj_set (edges n) [ch] nxt\<rparr>)
                    @ [(nxt, \<lparr>nid = nxt, edges = [], final = False\<rparr>)]"
    and path': "path' = path(nxt := path v @ [ch])"
  shows "trie_ok path' (Suc nextId, nodes')"
    and "\<forall>x. fin nodes' x = fin nodes x"
    and "keys_of nodes' = insert nxt (keys_of nodes)"
    and "nxt \<notin> keys_of nodes"
proof -
  let ?upd = "update_node nodes v (\<lambda>n. n\<lparr>edges := obj_set (edges n) [ch] nxt\<rparr>)"
  show fresh: "nxt \<notin> keys_of nodes" using trie_ok_fresh [OF ok] nx by simp
  then have fresh_upd: "nxt \<notin> keys_of ?upd" by simp
  have vkey: "v \<in> keys_of nodes" using v by (simp add: keys_of_map_of)
  then have vnext: "v \<noteq> nxt" using fresh by blast
  show keys: "keys_of nodes' = insert nxt (keys_of nodes)" by (simp add: nodes')
  have mo: "map_of nodes' x =
      (if x = nxt then Some \<lparr>nid = nxt, edges = [], final = False\<rparr>
       else if x = v then Some (n\<lparr>edges := obj_set (edges n) [ch] nxt\<rparr>)
       else map_of nodes x)" for x
    unfolding nodes' map_of_snoc_fresh [OF fresh_upd] map_of_update_node using v by simp
  have kids': "kids nodes' x c =
      (if x = nxt then None else if x = v \<and> c = [ch] then Some nxt else kids nodes x c)" for x c
    using v by (simp add: kids_def mo map_of_obj_set)
  have "map_of nodes nxt = None" using fresh by (simp add: keys_of_map_of)
  then show "\<forall>x. fin nodes' x = fin nodes x"
    using v by (simp add: fin_def mo)
  have root_key: "newId 0 \<in> keys_of nodes" using ok by (rule trie_ok_root)
  then have root_next: "newId 0 \<noteq> nxt" using fresh by blast
  have old_edges: "\<And>x c y. kids nodes x c = Some y \<Longrightarrow>
      y \<in> keys_of nodes \<and> (\<exists>ch. c = [ch] \<and> path y = path x @ [ch])"
    using trie_okD(6) [OF ok] .
  have old_parents: "\<And>y. y \<in> keys_of nodes \<Longrightarrow> y \<noteq> newId 0 \<Longrightarrow> \<exists>x c. kids nodes x c = Some y"
    using trie_okD(7) [OF ok] .
  have c1: "0 < Suc nextId" by simp
  have c2: "distinct (map fst nodes')"
    using trie_okD(2) [OF ok] fresh by (simp add: nodes' map_fst_update_node keys_of_def)
  have c3: "keys_of nodes' = newId ` {..<Suc nextId}"
    using trie_okD(3) [OF ok] by (simp add: keys nx lessThan_Suc)
  have c4: "\<forall>(k, m) \<in> set nodes'. nid m = k \<and> distinct (map fst (edges m))"
  proof -
    have old: "\<forall>(k, m) \<in> set nodes. nid m = k \<and> distinct (map fst (edges m))"
      using trie_okD(4) [OF ok] by blast
    have "nid m = k \<and> distinct (map fst (edges m))" if "(k, m) \<in> set ?upd" for k m
    proof -
      from set_update_node [OF that] obtain m0 where m0: "(k, m0) \<in> set nodes"
        and m: "m = (if k = v then m0\<lparr>edges := obj_set (edges m0) [ch] nxt\<rparr> else m0)" by blast
      from old m0 have "nid m0 = k" and "distinct (map fst (edges m0))" by auto
      then show ?thesis using m by (simp add: distinct_obj_set)
    qed
    then show ?thesis by (auto simp: nodes')
  qed
  have c5: "path' (newId 0) = []"
    using trie_okD(5) [OF ok] root_next by (simp add: path')
  have c6: "\<forall>x c y. kids nodes' x c = Some y \<longrightarrow>
              y \<in> keys_of nodes' \<and> (\<exists>ch. c = [ch] \<and> path' y = path' x @ [ch])"
  proof (intro allI impI)
    fix x c y assume k: "kids nodes' x c = Some y"
    show "y \<in> keys_of nodes' \<and> (\<exists>ch. c = [ch] \<and> path' y = path' x @ [ch])"
    proof (cases "x = v \<and> c = [ch]")
      case True
      with k vnext have "y = nxt" by (simp add: kids')
      with True vnext show ?thesis by (simp add: keys path')
    next
      case False
      with k have xn: "x \<noteq> nxt" and old: "kids nodes x c = Some y"
        by (auto simp: kids' split: if_splits)
      from old_edges [OF old] obtain ch' where y: "y \<in> keys_of nodes" and c: "c = [ch']"
        and p: "path y = path x @ [ch']" by blast
      from y fresh have "y \<noteq> nxt" by blast
      with xn y c p show ?thesis by (simp add: keys path')
    qed
  qed
  have c7: "\<forall>y \<in> keys_of nodes'. y \<noteq> newId 0 \<longrightarrow> (\<exists>x c. kids nodes' x c = Some y)"
  proof (intro ballI impI)
    fix y assume y: "y \<in> keys_of nodes'" and nr: "y \<noteq> newId 0"
    show "\<exists>x c. kids nodes' x c = Some y"
    proof (cases "y = nxt")
      case True
      have "kids nodes' v [ch] = Some nxt" using vnext by (simp add: kids')
      with True show ?thesis by blast
    next
      case False
      with y have "y \<in> keys_of nodes" by (simp add: keys)
      from old_parents [OF this nr] obtain x c where old: "kids nodes x c = Some y" by blast
      then have "x \<in> keys_of nodes" by (rule kids_key)
      with fresh have xn: "x \<noteq> nxt" by blast
      have "\<not> (x = v \<and> c = [ch])"
      proof
        assume "x = v \<and> c = [ch]"
        with old v none show False by (simp add: kids_def)
      qed
      with xn old have "kids nodes' x c = Some y" by (auto simp: kids')
      then show ?thesis by blast
    qed
  qed
  show "trie_ok path' (Suc nextId, nodes')"
    unfolding trie_ok_def prod.case using c1 c2 c3 c4 c5 c6 c7 by (intro conjI)
qed

text \<open>What inserting the characters \<open>u\<close> below the node \<open>v\<close> achieves.\<close>

definition step_rel ::
  "(string \<Rightarrow> string) \<Rightarrow> trie_state \<Rightarrow> string \<Rightarrow> string
     \<Rightarrow> (string \<Rightarrow> string) \<Rightarrow> trie_state \<Rightarrow> string \<Rightarrow> bool" where
  "step_rel path st v u path' st' v' \<longleftrightarrow>
     trie_ok path' st'
     \<and> (\<forall>x \<in> keys_of (snd st). path' x = path x)
     \<and> keys_of (snd st) \<subseteq> keys_of (snd st')
     \<and> v' \<in> keys_of (snd st')
     \<and> path' v' = path v @ u
     \<and> (\<forall>x. fin (snd st') x = fin (snd st) x)"

lemma step_rel_refl: "trie_ok path st \<Longrightarrow> v \<in> keys_of (snd st) \<Longrightarrow> step_rel path st v [] path st v"
  by (simp add: step_rel_def)

lemma step_rel_trans:
  assumes "step_rel path st v u path' st' v'" and "step_rel path' st' v' w path'' st'' v''"
  shows "step_rel path st v (u @ w) path'' st'' v''"
proof -
  from assms have 1: "trie_ok path'' st''" and 2: "\<forall>x \<in> keys_of (snd st). path' x = path x"
    and 3: "keys_of (snd st) \<subseteq> keys_of (snd st')" and 4: "v' \<in> keys_of (snd st')"
    and 5: "path' v' = path v @ u" and 6: "\<forall>x. fin (snd st') x = fin (snd st) x"
    and 7: "\<forall>x \<in> keys_of (snd st'). path'' x = path' x"
    and 8: "keys_of (snd st') \<subseteq> keys_of (snd st'')" and 9: "v'' \<in> keys_of (snd st'')"
    and 10: "path'' v'' = path' v' @ w" and 11: "\<forall>x. fin (snd st'') x = fin (snd st') x"
    unfolding step_rel_def by blast+
  from 2 3 7 have "\<forall>x \<in> keys_of (snd st). path'' x = path x" by auto
  moreover from 3 8 have "keys_of (snd st) \<subseteq> keys_of (snd st'')" by blast
  moreover from 5 10 have "path'' v'' = path v @ u @ w" by simp
  moreover from 6 11 have "\<forall>x. fin (snd st'') x = fin (snd st) x" by simp
  ultimately show ?thesis using 1 9 unfolding step_rel_def by simp
qed

lemma insert_char_step:
  assumes ok: "trie_ok path st" and vk: "v \<in> keys_of (snd st)"
  shows "\<exists>path'. step_rel path st v [ch] path' (fst (insert_char st v ch)) (snd (insert_char st v ch))"
proof -
  obtain nextId nodes where st: "st = (nextId, nodes)" by (cases st)
  from vk st obtain n where v: "map_of nodes v = Some n" by (auto simp: keys_of_map_of)
  show ?thesis
  proof (cases "map_of (edges n) [ch]")
    case None
    let ?nxt = "newId nextId"
    let ?nodes' = "update_node nodes v (\<lambda>n. n\<lparr>edges := obj_set (edges n) [ch] ?nxt\<rparr>)
                    @ [(?nxt, \<lparr>nid = ?nxt, edges = [], final = False\<rparr>)]"
    let ?path' = "path(?nxt := path v @ [ch])"
    note sf = step_fresh [OF ok [unfolded st] v None refl refl refl]
    from insert_char_fresh [OF v None sf(4)]
    have ic: "insert_char st v ch = ((Suc nextId, ?nodes'), ?nxt)" by (simp add: st)
    have "v \<noteq> ?nxt" using vk st sf(4) by auto
    then have "step_rel path st v [ch] ?path' (Suc nextId, ?nodes') ?nxt"
      unfolding step_rel_def using sf by (auto simp: st)
    with ic show ?thesis by auto
  next
    case (Some nxt)
    with v have k: "kids nodes v [ch] = Some nxt" by (simp add: kids_def)
    from trie_okD(6) [OF ok [unfolded st] k]
    have nk: "nxt \<in> keys_of nodes" and p: "path nxt = path v @ [ch]" by auto
    from nk trie_okD(3) [OF ok [unfolded st]] have "nxt \<noteq> []" using newId_nonempty by auto
    from insert_char_existing [OF v Some this nk]
    have ic: "insert_char st v ch = (st, nxt)" by (simp add: st)
    have "step_rel path st v [ch] path st nxt"
      unfolding step_rel_def using ok nk p by (simp add: st)
    with ic show ?thesis by auto
  qed
qed

lemma insert_chars_step:
  "trie_ok path st \<Longrightarrow> v \<in> keys_of (snd st) \<Longrightarrow>
   \<exists>path'. step_rel path st v u path' (fst (insert_chars st v u)) (snd (insert_chars st v u))"
proof (induction u arbitrary: path st v)
  case Nil
  from step_rel_refl [OF Nil] show ?case by (intro exI [of _ path]) simp
next
  case (Cons ch u)
  obtain st1 v1 where ic: "insert_char st v ch = (st1, v1)" by (cases "insert_char st v ch")
  from insert_char_step [OF Cons.prems, of ch] ic
  obtain path1 where s1: "step_rel path st v [ch] path1 st1 v1" by auto
  then have "trie_ok path1 st1" and "v1 \<in> keys_of (snd st1)" by (simp_all add: step_rel_def)
  from Cons.IH [OF this] obtain path2
    where "step_rel path1 st1 v1 u path2 (fst (insert_chars st1 v1 u)) (snd (insert_chars st1 v1 u))"
    by blast
  from step_rel_trans [OF s1 this] ic show ?case by auto
qed

subsection \<open>Walking the trie\<close>

lemma walk_snoc:
  "walk nodes v (w @ [ch]) = (case walk nodes v w of None \<Rightarrow> None | Some x \<Rightarrow> kids nodes x [ch])"
  by (induction w arbitrary: v) (auto split: option.splits)

lemma walk_path:
  assumes ok: "trie_ok path (nextId, nodes)"
  shows "v \<in> keys_of nodes \<Longrightarrow> walk nodes v w = Some y \<Longrightarrow> y \<in> keys_of nodes \<and> path y = path v @ w"
proof (induction w arbitrary: v)
  case Nil
  then show ?case by simp
next
  case (Cons ch w)
  from Cons.prems(2) obtain x where k: "kids nodes v [ch] = Some x" and w: "walk nodes x w = Some y"
    by (auto split: option.splits)
  from trie_okD(6) [OF ok k] have xk: "x \<in> keys_of nodes" and px: "path x = path v @ [ch]" by auto
  from Cons.IH [OF xk w] px show ?case by simp
qed

lemma path_walk:
  assumes ok: "trie_ok path (nextId, nodes)"
  shows "y \<in> keys_of nodes \<Longrightarrow> walk nodes (newId 0) (path y) = Some y"
proof (induction "length (path y)" arbitrary: y rule: less_induct)
  case less
  show ?case
  proof (cases "y = newId 0")
    case True
    then show ?thesis using trie_okD(5) [OF ok] by simp
  next
    case False
    from trie_okD(7) [OF ok less.prems False] obtain x c where k: "kids nodes x c = Some y" by blast
    from trie_okD(6) [OF ok k] obtain ch where c: "c = [ch]" and p: "path y = path x @ [ch]" by blast
    from k have xk: "x \<in> keys_of nodes" by (rule kids_key)
    from p have "length (path x) < length (path y)" by simp
    from less.hyps [OF this xk] have "walk nodes (newId 0) (path x) = Some x" .
    then show ?thesis using k c p by (simp add: walk_snoc)
  qed
qed

lemma path_inj:
  assumes ok: "trie_ok path (nextId, nodes)"
    and "y1 \<in> keys_of nodes" and "y2 \<in> keys_of nodes" and "path y1 = path y2"
  shows "y1 = y2"
proof -
  have "Some y1 = walk nodes (newId 0) (path y1)" using path_walk [OF ok assms(2)] by simp
  also have "\<dots> = walk nodes (newId 0) (path y2)" by (simp only: assms(4))
  also have "\<dots> = Some y2" using path_walk [OF ok assms(3)] .
  finally show ?thesis by simp
qed

subsection \<open>The words of the trie\<close>

definition trie_lang :: "trie_state \<Rightarrow> string set \<Rightarrow> bool" where
  "trie_lang st W \<longleftrightarrow>
     (\<exists>path. trie_ok path st
        \<and> (\<forall>y \<in> keys_of (snd st). fin (snd st) y \<longleftrightarrow> path y \<in> W)
        \<and> W \<subseteq> path ` keys_of (snd st))"

lemma trie_lang_walk:
  assumes "trie_lang (nextId, nodes) W"
  shows "(\<exists>y. walk nodes (newId 0) w = Some y \<and> fin nodes y) \<longleftrightarrow> w \<in> W"
proof -
  from assms obtain path where ok: "trie_ok path (nextId, nodes)"
    and f: "\<forall>y \<in> keys_of nodes. fin nodes y \<longleftrightarrow> path y \<in> W"
    and sub: "W \<subseteq> path ` keys_of nodes"
    unfolding trie_lang_def by auto
  show ?thesis
  proof
    assume "\<exists>y. walk nodes (newId 0) w = Some y \<and> fin nodes y"
    then obtain y where w: "walk nodes (newId 0) w = Some y" and fy: "fin nodes y" by blast
    from walk_path [OF ok trie_ok_root [OF ok] w] trie_okD(5) [OF ok]
    have "y \<in> keys_of nodes" and "path y = w" by auto
    with f fy show "w \<in> W" by auto
  next
    assume "w \<in> W"
    with sub obtain y where yk: "y \<in> keys_of nodes" and p: "path y = w" by auto
    from path_walk [OF ok yk] p have "walk nodes (newId 0) w = Some y" by simp
    moreover from f yk p \<open>w \<in> W\<close> have "fin nodes y" by auto
    ultimately show "\<exists>y. walk nodes (newId 0) w = Some y \<and> fin nodes y" by blast
  qed
qed

lemma kids_update_final:
  "kids (update_node nodes v (\<lambda>n. n\<lparr>final := True\<rparr>)) x c = kids nodes x c"
  by (cases "map_of nodes v") (auto simp: kids_def map_of_update_node)

lemma fin_update_final:
  "v \<in> keys_of nodes \<Longrightarrow>
   fin (update_node nodes v (\<lambda>n. n\<lparr>final := True\<rparr>)) x \<longleftrightarrow> fin nodes x \<or> x = v"
  by (auto simp: fin_def map_of_update_node keys_of_map_of split: option.splits)

lemma trie_ok_update_final:
  assumes ok: "trie_ok path (nextId, nodes)"
  shows "trie_ok path (nextId, update_node nodes v (\<lambda>n. n\<lparr>final := True\<rparr>))"
proof -
  let ?nodes = "update_node nodes v (\<lambda>n. n\<lparr>final := True\<rparr>)"
  have "\<forall>(k, m) \<in> set ?nodes. nid m = k \<and> distinct (map fst (edges m))"
  proof -
    have "nid m = k \<and> distinct (map fst (edges m))" if "(k, m) \<in> set ?nodes" for k m
    proof -
      from set_update_node [OF that] obtain m0 where m0: "(k, m0) \<in> set nodes"
        and m: "m = (if k = v then m0\<lparr>final := True\<rparr> else m0)" by blast
      from trie_okD(4) [OF ok m0] m show ?thesis by simp
    qed
    then show ?thesis by blast
  qed
  then show ?thesis
    unfolding trie_ok_def prod.case kids_update_final keys_of_update_node map_fst_update_node
    using trie_okD [OF ok] by (intro conjI) blast+
qed

lemma insert_word_lang:
  assumes "trie_lang st W"
  shows "trie_lang (insert_word (newId 0) w st) (insert w W)"
proof -
  from assms obtain path where ok: "trie_ok path st"
    and f: "\<forall>y \<in> keys_of (snd st). fin (snd st) y \<longleftrightarrow> path y \<in> W"
    and sub: "W \<subseteq> path ` keys_of (snd st)"
    unfolding trie_lang_def by auto
  obtain nextId nodes where st: "st = (nextId, nodes)" by (cases st)
  have root: "newId 0 \<in> keys_of (snd st)" using trie_ok_root ok st by auto
  obtain st' v' where ic0: "insert_chars st (newId 0) w = (st', v')"
    by (cases "insert_chars st (newId 0) w")
  obtain n' nodes' where st': "st' = (n', nodes')" by (cases st')
  note ic = ic0 [unfolded st']
  from insert_chars_step [OF ok root, of w] ic obtain path'
    where sr: "step_rel path st (newId 0) w path' (n', nodes') v'" by auto
  then have ok': "trie_ok path' (n', nodes')" and agree: "\<forall>x \<in> keys_of nodes. path' x = path x"
    and mono: "keys_of nodes \<subseteq> keys_of nodes'" and vk: "v' \<in> keys_of nodes'"
    and pv: "path' v' = path (newId 0) @ w" and fin_same: "\<forall>x. fin nodes' x = fin nodes x"
    unfolding step_rel_def st by simp_all
  from pv trie_okD(5) [OF ok [unfolded st]] have pv': "path' v' = w" by simp
  let ?nodes = "update_node nodes' v' (\<lambda>n. n\<lparr>final := True\<rparr>)"
  have res: "insert_word (newId 0) w st = (n', ?nodes)" by (simp add: insert_word_def ic)
  have ok'': "trie_ok path' (n', ?nodes)" using ok' by (rule trie_ok_update_final)
  have f'': "fin ?nodes y \<longleftrightarrow> path' y \<in> insert w W" if yk: "y \<in> keys_of nodes'" for y
  proof (cases "y = v'")
    case True
    with vk pv' show ?thesis by (simp add: fin_update_final)
  next
    case False
    with path_inj [OF ok' yk vk] pv' have nw: "path' y \<noteq> w" by auto
    show ?thesis
    proof (cases "y \<in> keys_of nodes")
      case True
      with f st agree have "fin nodes y \<longleftrightarrow> path' y \<in> W" by simp
      with False nw vk fin_same show ?thesis by (simp add: fin_update_final)
    next
      case new: False
      then have "\<not> fin nodes y" by (simp add: fin_def keys_of_map_of)
      moreover have "path' y \<notin> W"
      proof
        assume "path' y \<in> W"
        with sub st obtain x where xk: "x \<in> keys_of nodes" and "path x = path' y" by auto
        with agree have "path' x = path' y" by simp
        with path_inj [OF ok' _ yk] xk mono have "x = y" by blast
        with xk new show False by simp
      qed
      ultimately show ?thesis using False nw vk fin_same by (simp add: fin_update_final)
    qed
  qed
  have sub'': "insert w W \<subseteq> path' ` keys_of ?nodes"
  proof
    fix u assume "u \<in> insert w W"
    then show "u \<in> path' ` keys_of ?nodes"
    proof
      assume "u = w"
      with pv' vk show ?thesis by (auto intro: rev_image_eqI)
    next
      assume "u \<in> W"
      with sub st obtain x where xk: "x \<in> keys_of nodes" and "path x = u" by auto
      with agree mono show ?thesis by (auto intro: rev_image_eqI)
    qed
  qed
  show ?thesis unfolding trie_lang_def res
    using ok'' f'' sub'' by (intro exI [of _ path']) simp
qed

lemma fold_insert_word_lang:
  "trie_lang st W \<Longrightarrow> trie_lang (fold (insert_word (newId 0)) ws st) (W \<union> set ws)"
proof (induction ws arbitrary: st W)
  case Nil
  then show ?case by simp
next
  case (Cons w ws)
  from Cons.IH [OF insert_word_lang [OF Cons.prems, of w]] show ?case by simp
qed

lemma trie_lang_initial: "trie_lang (1, fst (ensureNode [] (newId 0))) {}"
proof -
  have "trie_ok (\<lambda>_. []) (1, [(newId 0, \<lparr>nid = newId 0, edges = [], final = False\<rparr>)])"
    unfolding trie_ok_def by (simp add: kids_def lessThan_Suc)
  then show ?thesis unfolding trie_lang_def
    by (intro exI [of _ "\<lambda>_. []"]) (simp add: ensureNode_def fin_def)
qed

subsection \<open>From the trie to the automaton\<close>

definition lookup2 :: "'v obj obj \<Rightarrow> string \<Rightarrow> string \<Rightarrow> 'v option" where
  "lookup2 tr k s = (case map_of tr k of None \<Rightarrow> None | Some e \<Rightarrow> map_of e s)"

lemma lookup2_set_entry:
  "lookup2 (obj_set tr k (obj_set (obj_get tr k) s v)) k' s' =
     (if k' = k \<and> s' = s then Some v else lookup2 tr k' s')"
  by (cases "map_of tr k") (auto simp: lookup2_def map_of_obj_set obj_get_def)

lemma lookup2_reset:
  "lookup2 (obj_set tr k []) k' s' = (if k' = k then None else lookup2 tr k' s')"
  by (simp add: lookup2_def map_of_obj_set)

lemma dafsa_run_Cons:
  "dafsa_run dfa s (ch # rest) =
     (case lookup2 (transitions dfa) (toKey s) [ch] of
        None \<Rightarrow> \<lparr>accepted = False, reason = NoTransition\<rparr>
      | Some [] \<Rightarrow> \<lparr>accepted = False, reason = NoTransition\<rparr>
      | Some (d # _) \<Rightarrow> dafsa_run dfa d rest)"
  by (simp add: lookup2_def split: option.splits)

lemma lookup2_edges_fold:
  "distinct (map fst es) \<Longrightarrow>
   lookup2 (fold (\<lambda>(symb, to) tr'. obj_set tr' k (obj_set (obj_get tr' k) symb [Str to])) es tr) k' s' =
     (if k' = k then (case map_of es s' of Some t \<Rightarrow> Some [Str t] | None \<Rightarrow> lookup2 tr k s')
      else lookup2 tr k' s')"
proof (induction es arbitrary: tr)
  case Nil
  show ?case by simp
next
  case (Cons e es)
  obtain symb to where e: "e = (symb, to)" by (cases e)
  from Cons.prems e have d: "distinct (map fst es)" and fresh: "map_of es symb = None"
    by (simp_all add: map_of_eq_None_iff)
  show ?case
    unfolding e fold_simps prod.case Cons.IH [OF d] lookup2_set_entry
    using fresh by (auto split: option.splits)
qed

lemma lookup2_trie_fold:
  assumes "distinct (map fst nodes)"
    and "\<forall>(k, n) \<in> set nodes. nid n = k \<and> distinct (map fst (edges n))"
  shows "lookup2 (fold (\<lambda>(k, n) tr.
             fold (\<lambda>(symb, to) tr'. obj_set tr' (nid n) (obj_set (obj_get tr' (nid n)) symb [Str to]))
                  (edges n) (obj_set tr (nid n) [])) nodes tr0) k' s' =
     (case map_of nodes k' of
        Some n \<Rightarrow> map_option (\<lambda>t. [Str t]) (map_of (edges n) s')
      | None \<Rightarrow> lookup2 tr0 k' s')"
  using assms
proof (induction nodes arbitrary: tr0)
  case Nil
  show ?case by simp
next
  case (Cons x nodes)
  obtain k n where x: "x = (k, n)" by (cases x)
  from Cons.prems x have d: "distinct (map fst nodes)" and fresh: "map_of nodes k = None"
    and rest: "\<forall>(k, n) \<in> set nodes. nid n = k \<and> distinct (map fst (edges n))"
    and nk: "nid n = k" and de: "distinct (map fst (edges n))"
    by (simp_all add: map_of_eq_None_iff)
  show ?case
    unfolding x fold_simps prod.case Cons.IH [OF d rest] lookup2_edges_fold [OF de] lookup2_reset nk
    using fresh by (auto split: option.splits)
qed

lemma lookup2_trie_transitions:
  assumes "trie_ok path (nextId, nodes)"
  shows "lookup2 (trie_transitions nodes) k s = map_option (\<lambda>t. [Str t]) (kids nodes k s)"
proof -
  have "\<forall>(k, n) \<in> set nodes. nid n = k \<and> distinct (map fst (edges n))"
    using trie_okD(4) [OF assms] by blast
  from lookup2_trie_fold [OF trie_okD(2) [OF assms] this, of "[]" k s]
  show ?thesis by (simp add: trie_transitions_def kids_def lookup2_def split: option.splits)
qed

lemma trie_accept:
  assumes "trie_ok path (nextId, nodes)"
  shows "Str v \<in> set (map (\<lambda>(k, n). Str (nid n)) (filter (\<lambda>(k, n). final n) nodes)) \<longleftrightarrow> fin nodes v"
proof -
  have d: "distinct (map fst nodes)" by (rule trie_okD(2) [OF assms])
  have "Str v \<in> set (map (\<lambda>(k, n). Str (nid n)) (filter (\<lambda>(k, n). final n) nodes))
    \<longleftrightarrow> (\<exists>n. (v, n) \<in> set nodes \<and> final n)"
    using trie_okD(4) [OF assms] by (auto simp: image_iff)
  also have "\<dots> \<longleftrightarrow> (\<exists>n. map_of nodes v = Some n \<and> final n)"
    by (simp add: map_of_eq_Some_iff [OF d])
  also have "\<dots> \<longleftrightarrow> fin nodes v"
    by (cases "map_of nodes v") (simp_all add: fin_def)
  finally show ?thesis .
qed

lemma trie_run:
  assumes ok: "trie_ok path (nextId, nodes)"
    and tr: "transitions dfa = trie_transitions nodes"
    and ac: "accept dfa = map (\<lambda>(k, n). Str (nid n)) (filter (\<lambda>(k, n). final n) nodes)"
  shows "accepted (dafsa_run dfa (Str v) w) \<longleftrightarrow> (\<exists>y. walk nodes v w = Some y \<and> fin nodes y)"
proof (induction w arbitrary: v)
  case Nil
  show ?case using trie_accept [OF ok, of v] by (simp add: ac Let_def)
next
  case (Cons ch w)
  show ?case
  proof (cases "kids nodes v [ch]")
    case None
    then show ?thesis
      by (simp del: dafsa_run.simps add: dafsa_run_Cons tr lookup2_trie_transitions [OF ok])
  next
    case (Some y)
    then show ?thesis using Cons.IH [of y]
      by (simp del: dafsa_run.simps add: dafsa_run_Cons tr lookup2_trie_transitions [OF ok])
  qed
qed

lemma first_bad_symbol_None:
  "\<forall>w \<in> set ws. \<forall>ch \<in> set w. [ch] \<in> set alpha \<Longrightarrow> first_bad_symbol alpha ws = None"
proof (induction ws)
  case Nil
  show ?case by simp
next
  case (Cons w ws)
  then have "find (\<lambda>ch. [ch] \<notin> set alpha) w = None" by (simp add: find_None_iff)
  with Cons show ?case by simp
qed

text \<open>
  C2. For every language description whose alphabet is a non-empty array and whose words
  use only alphabet symbols, \<open>buildTrieDFA\<close> returns an automaton, and the evaluator of
  DAFSA.js accepts a string on it exactly when the string is one of the words of
  \<open>accept\<close>; the empty string included: when it is a word, the start state is accepting.
\<close>

theorem trie_accepts_exactly_the_words:
  assumes ne: "lang_alphabet L \<noteq> []"
    and al: "\<forall>w \<in> set (lang_accept L). \<forall>ch \<in> set w. [ch] \<in> set (lang_alphabet L)"
  shows "\<exists>dfa. buildTrieDFA L = Inr dfa
           \<and> (\<forall>w. accepted (dafsa_accepts dfa w) \<longleftrightarrow> w \<in> set (lang_accept L))
           \<and> ([] \<in> set (lang_accept L) \<longrightarrow> start dfa \<in> set (accept dfa))"
proof -
  obtain nextId nodes where f: "fold (insert_word (newId 0)) (lang_accept L)
      (1, fst (ensureNode [] (newId 0))) = (nextId, nodes)"
    by (cases "fold (insert_word (newId 0)) (lang_accept L) (1, fst (ensureNode [] (newId 0)))")
  define dfa where "dfa = \<lparr>states = map (\<lambda>(k, n). Str k) nodes,
      alphabet = fold (\<lambda>x A. set_add A x) (lang_alphabet L) [],
      start = Str (newId 0),
      accept = map (\<lambda>(k, n). Str (nid n)) (filter (\<lambda>(k, n). final n) nodes),
      transitions = trie_transitions nodes\<rparr>"
  have built: "buildTrieDFA L = Inr dfa"
    using ne first_bad_symbol_None [OF al] f by (simp add: buildTrieDFA_def Let_def dfa_def)
  from fold_insert_word_lang [OF trie_lang_initial, of "lang_accept L"] f
  have lang: "trie_lang (nextId, nodes) (set (lang_accept L))" by simp
  then obtain path where ok: "trie_ok path (nextId, nodes)" unfolding trie_lang_def by blast
  have alpha: "set (alphabet dfa) = set (lang_alphabet L)"
    by (simp add: dfa_def fold_set_add)
  have acc: "accepted (dafsa_accepts dfa w) \<longleftrightarrow> w \<in> set (lang_accept L)" for w
  proof (cases "find (\<lambda>ch. [ch] \<notin> set (alphabet dfa)) w")
    case None
    have "accepted (dafsa_run dfa (Str (newId 0)) w)
        \<longleftrightarrow> (\<exists>y. walk nodes (newId 0) w = Some y \<and> fin nodes y)"
      by (rule trie_run [OF ok]) (simp_all add: dfa_def)
    with None trie_lang_walk [OF lang, of w] show ?thesis
      by (simp add: dafsa_accepts_def dfa_def)
  next
    case (Some ch)
    then have "ch \<in> set w" and "[ch] \<notin> set (lang_alphabet L)"
      unfolding alpha by (auto simp: find_Some_iff in_set_conv_nth)
    with al have "w \<notin> set (lang_accept L)" by blast
    with Some show ?thesis by (simp add: dafsa_accepts_def)
  qed
  have "[] \<in> set (lang_accept L) \<longrightarrow> start dfa \<in> set (accept dfa)"
  proof
    assume "[] \<in> set (lang_accept L)"
    with acc [of "[]"] show "start dfa \<in> set (accept dfa)"
      by (simp add: dafsa_accepts_def Let_def)
  qed
  with built acc show ?thesis by blast
qed

subsection \<open>Referential integrity of the trie automaton\<close>

lemma entries_reset: "entries (obj_set tr k []) \<subseteq> entries tr"
proof -
  have "set (obj_set tr k []) \<subseteq> insert (k, []) (set tr)" by (rule set_obj_set)
  then show ?thesis unfolding entries_def by fastforce
qed

definition all_entries :: "(string \<Rightarrow> string \<Rightarrow> 'v \<Rightarrow> bool) \<Rightarrow> 'v obj obj \<Rightarrow> bool" where
  "all_entries P tr \<longleftrightarrow> (\<forall>(k, symb, v) \<in> entries tr. P k symb v)"

lemma all_entries_Nil: "all_entries P []"
  by (simp add: all_entries_def entries_def)

lemma all_entries_reset: "all_entries P tr \<Longrightarrow> all_entries P (obj_set tr k [])"
  using entries_reset [of tr k] unfolding all_entries_def by blast

lemma all_entries_set_entry:
  "all_entries P tr \<Longrightarrow> P k symb v \<Longrightarrow> all_entries P (obj_set tr k (obj_set (obj_get tr k) symb v))"
  using entries_set_entry [of tr k symb v] unfolding all_entries_def by blast

lemma all_entries_edges_fold:
  "all_entries P tr \<Longrightarrow> (\<And>symb to. (symb, to) \<in> set es \<Longrightarrow> P k symb [Str to]) \<Longrightarrow> keys_of tr \<subseteq> K \<Longrightarrow> k \<in> K \<Longrightarrow>
   all_entries P (fold (\<lambda>(symb, to) tr'. obj_set tr' k (obj_set (obj_get tr' k) symb [Str to])) es tr)
   \<and> keys_of (fold (\<lambda>(symb, to) tr'. obj_set tr' k (obj_set (obj_get tr' k) symb [Str to])) es tr) \<subseteq> K"
proof (induction es arbitrary: tr)
  case Nil
  then show ?case by simp
next
  case (Cons e es)
  obtain symb to where e: "e = (symb, to)" by (cases e)
  let ?tr = "obj_set tr k (obj_set (obj_get tr k) symb [Str to])"
  have 1: "all_entries P ?tr" using Cons.prems(1,2) e by (intro all_entries_set_entry) simp_all
  have 2: "keys_of ?tr \<subseteq> K" using Cons.prems(3,4) by simp
  have 3: "\<And>symb to. (symb, to) \<in> set es \<Longrightarrow> P k symb [Str to]"
    using Cons.prems(2) by (meson list.set_intros(2))
  from Cons.IH [OF 1 3 2 Cons.prems(4)] show ?case unfolding e fold_simps prod.case .
qed

lemma all_entries_trie_fold:
  "all_entries P tr0 \<Longrightarrow>
   (\<And>k n symb to. (k, n) \<in> set nodes \<Longrightarrow> (symb, to) \<in> set (edges n) \<Longrightarrow> P (nid n) symb [Str to]) \<Longrightarrow>
   keys_of tr0 \<subseteq> K \<Longrightarrow> (\<And>k n. (k, n) \<in> set nodes \<Longrightarrow> nid n \<in> K) \<Longrightarrow>
   all_entries P (fold (\<lambda>(k, n) tr.
             fold (\<lambda>(symb, to) tr'. obj_set tr' (nid n) (obj_set (obj_get tr' (nid n)) symb [Str to]))
                  (edges n) (obj_set tr (nid n) [])) nodes tr0)
   \<and> keys_of (fold (\<lambda>(k, n) tr.
             fold (\<lambda>(symb, to) tr'. obj_set tr' (nid n) (obj_set (obj_get tr' (nid n)) symb [Str to]))
                  (edges n) (obj_set tr (nid n) [])) nodes tr0) \<subseteq> K"
proof (induction nodes arbitrary: tr0)
  case Nil
  then show ?case by simp
next
  case (Cons x nodes)
  obtain k n where x: "x = (k, n)" by (cases x)
  let ?tr1 = "fold (\<lambda>(symb, to) tr'. obj_set tr' (nid n) (obj_set (obj_get tr' (nid n)) symb [Str to]))
                  (edges n) (obj_set tr0 (nid n) [])"
  have nk: "nid n \<in> K" using Cons.prems(4) [of k n] x by simp
  have a: "all_entries P (obj_set tr0 (nid n) [])" using Cons.prems(1) by (rule all_entries_reset)
  have b: "\<And>symb to. (symb, to) \<in> set (edges n) \<Longrightarrow> P (nid n) symb [Str to]"
    using Cons.prems(2) [of k n] x by simp
  have c: "keys_of (obj_set tr0 (nid n) []) \<subseteq> K" using Cons.prems(3) nk by simp
  from all_entries_edges_fold [OF a b c nk]
  have 1: "all_entries P ?tr1" and 2: "keys_of ?tr1 \<subseteq> K" by simp_all
  have 3: "\<And>k n symb to. (k, n) \<in> set nodes \<Longrightarrow> (symb, to) \<in> set (edges n) \<Longrightarrow> P (nid n) symb [Str to]"
    using Cons.prems(2) by (meson list.set_intros(2))
  have 4: "\<And>k n. (k, n) \<in> set nodes \<Longrightarrow> nid n \<in> K"
    using Cons.prems(4) by (meson list.set_intros(2))
  from Cons.IH [OF 1 3 2 4] show ?case unfolding x fold_simps prod.case .
qed

lemma trie_integrity:
  assumes ok: "trie_ok path (nextId, nodes)"
  shows "referential_integrity
     \<lparr>states = map (\<lambda>(k, n). Str k) nodes, alphabet = A, start = Str (newId 0),
      accept = map (\<lambda>(k, n). Str (nid n)) (filter (\<lambda>(k, n). final n) nodes),
      transitions = trie_transitions nodes\<rparr>"
proof -
  have st: "set (map (\<lambda>(k, n). Str k) nodes) = Str ` keys_of nodes"
    by (induction nodes) auto
  have nidk: "\<And>k n. (k, n) \<in> set nodes \<Longrightarrow> nid n = k" using trie_okD(4) [OF ok] by blast
  have 1: "Str (newId 0) \<in> Str ` keys_of nodes" using trie_ok_root [OF ok] by blast
  have 2: "set (map (\<lambda>(k, n). Str (nid n)) (filter (\<lambda>(k, n). final n) nodes)) \<subseteq> Str ` keys_of nodes"
  proof
    fix x assume "x \<in> set (map (\<lambda>(k, n). Str (nid n)) (filter (\<lambda>(k, n). final n) nodes))"
    then obtain k n where "(k, n) \<in> set nodes" and "x = Str (nid n)" by auto
    with nidk [of k n] keys_of_member [of k n nodes] show "x \<in> Str ` keys_of nodes" by simp
  qed
  have dest: "set [Str to] \<subseteq> Str ` keys_of nodes"
    if kn: "(k, n) \<in> set nodes" and e: "(symb, to) \<in> set (edges n)" for k n symb to
  proof -
    from trie_okD(4) [OF ok kn] have "distinct (map fst (edges n))" by simp
    with e have "map_of (edges n) symb = Some to" by simp
    moreover from kn trie_okD(2) [OF ok] have "map_of nodes k = Some n" by simp
    ultimately have "kids nodes k symb = Some to" by (simp add: kids_def)
    from trie_okD(6) [OF ok this] show ?thesis by simp
  qed
  have src: "nid n \<in> keys_of nodes" if "(k, n) \<in> set nodes" for k n
    using nidk [OF that] keys_of_member [OF that] by simp
  from all_entries_trie_fold [of "\<lambda>k symb ds. set ds \<subseteq> Str ` keys_of nodes" "[]" nodes "keys_of nodes",
      OF all_entries_Nil dest _ src, folded trie_transitions_def]
  have 3: "all_entries (\<lambda>k symb ds. set ds \<subseteq> Str ` keys_of nodes) (trie_transitions nodes)"
    and 4: "keys_of (trie_transitions nodes) \<subseteq> keys_of nodes" by simp_all
  from 3 have 5: "\<forall>(k, symb, ds) \<in> entries (trie_transitions nodes). set ds \<subseteq> Str ` keys_of nodes"
    by (simp add: all_entries_def)
  from 4 have 6: "Str ` keys_of (trie_transitions nodes) \<subseteq> Str ` keys_of nodes" by blast
  define D where "D = \<lparr>states = map (\<lambda>(k, n). Str k) nodes, alphabet = A, start = Str (newId 0),
      accept = map (\<lambda>(k, n). Str (nid n)) (filter (\<lambda>(k, n). final n) nodes),
      transitions = trie_transitions nodes\<rparr>"
  have sel: "states D = map (\<lambda>(k, n). Str k) nodes" "start D = Str (newId 0)"
    "accept D = map (\<lambda>(k, n). Str (nid n)) (filter (\<lambda>(k, n). final n) nodes)"
    "transitions D = trie_transitions nodes"
    by (simp_all add: D_def)
  have "referential_integrity D"
    unfolding referential_integrity_entries sel st using 1 2 5 6 by blast
  then show ?thesis by (simp only: D_def)
qed

theorem trie_accepts_exactly_the_words_witness:
  "\<exists>dfa. buildTrieDFA \<lparr>lang_alphabet = [''a'', ''b''], lang_accept = ['''', ''a'', ''ab'', ''aabb'']\<rparr>
            = Inr dfa
         \<and> (\<forall>w. accepted (dafsa_accepts dfa w) \<longleftrightarrow> w \<in> set ['''', ''a'', ''ab'', ''aabb''])
         \<and> start dfa \<in> set (accept dfa)"
  using trie_accepts_exactly_the_words
    [of "\<lparr>lang_alphabet = [''a'', ''b''], lang_accept = ['''', ''a'', ''ab'', ''aabb'']\<rparr>"]
  by simp

section \<open>Signatures and representatives\<close>

text \<open>
  \<open>transitions[s] || {}\<close> and the flag \<open>isFinal\<close>; then the signature of a state as a
  relation, without fuel and memo: the string that \<open>sig\<close> builds from the signatures of the
  first destinations, in the order of the sorted symbols.
\<close>

definition out_edges :: "automaton \<Rightarrow> sid \<Rightarrow> sid list obj" where
  "out_edges dfa s = obj_get (transitions dfa) (toKey s)"

definition final_flag :: "automaton \<Rightarrow> sid \<Rightarrow> string" where
  "final_flag dfa s = (if s \<in> set (accept dfa) then ''1'' else ''0'')"

inductive has_sig :: "automaton \<Rightarrow> sid \<Rightarrow> string \<Rightarrow> bool" for dfa where
  has_sigI:
    "list_all2 (\<lambda>a p. \<exists>v. has_sig dfa (first_dest (out_edges dfa s) a) v \<and> p = a @ ''>'' @ v)
       (sort (object_keys (out_edges dfa s))) parts
     \<Longrightarrow> has_sig dfa s (final_flag dfa s @ ''|'' @ join_comma parts)"

lemma list_all2_functional:
  assumes f: "\<forall>x y z. R x y \<longrightarrow> R' x z \<longrightarrow> y = z"
  shows "list_all2 R xs ys \<Longrightarrow> list_all2 R' xs zs \<Longrightarrow> ys = zs"
proof (induction xs arbitrary: ys zs)
  case Nil
  then show ?case by simp
next
  case (Cons x xs)
  from Cons.prems(1) obtain y ys' where ys: "ys = y # ys'" and r: "R x y" and l: "list_all2 R xs ys'"
    by (auto simp: list_all2_Cons1)
  from Cons.prems(2) obtain z zs' where zs: "zs = z # zs'" and r': "R' x z" and l': "list_all2 R' xs zs'"
    by (auto simp: list_all2_Cons1)
  from f r r' have "y = z" by blast
  with Cons.IH [OF l l'] ys zs show ?case by simp
qed

lemma has_sig_det: "has_sig dfa s v \<Longrightarrow> has_sig dfa s v' \<Longrightarrow> v = v'"
proof (induction arbitrary: v' rule: has_sig.induct)
  case (has_sigI s parts)
  from has_sigI(2) obtain parts' where
    l': "list_all2 (\<lambda>a p. \<exists>v. has_sig dfa (first_dest (out_edges dfa s) a) v \<and> p = a @ ''>'' @ v)
       (sort (object_keys (out_edges dfa s))) parts'"
    and v': "v' = final_flag dfa s @ ''|'' @ join_comma parts'"
    by (auto elim: has_sig.cases)
  have "parts = parts'"
    by (rule list_all2_functional [OF _ has_sigI(1) l']) blast
  with v' show ?case by simp
qed

text \<open>The memo holds signatures only, and \<open>sig\<close> only adds to it.\<close>

definition memo_ok :: "automaton \<Rightarrow> (sid \<times> string) list \<Rightarrow> bool" where
  "memo_ok dfa memo \<longleftrightarrow> (\<forall>s v. map_of memo s = Some v \<longrightarrow> has_sig dfa s v)"

definition memo_le :: "(sid \<times> string) list \<Rightarrow> (sid \<times> string) list \<Rightarrow> bool" where
  "memo_le memo memo' \<longleftrightarrow> (\<forall>s v. map_of memo s = Some v \<longrightarrow> map_of memo' s = Some v)"

lemma memo_le_refl: "memo_le m m"
  by (simp add: memo_le_def)

lemma memo_le_trans: "memo_le a b \<Longrightarrow> memo_le b c \<Longrightarrow> memo_le a c"
  by (simp add: memo_le_def)

lemma memo_le_set: "map_of memo s = None \<Longrightarrow> memo_le memo (obj_set memo s v)"
  by (auto simp: memo_le_def map_of_obj_set)

lemma memo_ok_set: "memo_ok dfa memo \<Longrightarrow> has_sig dfa s v \<Longrightarrow> memo_ok dfa (obj_set memo s v)"
  by (auto simp: memo_ok_def map_of_obj_set)

lemma sig_sound_aux:
  "(\<forall>memo s v memo'. memo_ok dfa memo \<longrightarrow> sig fuel dfa memo s = Some (v, memo') \<longrightarrow>
      has_sig dfa s v \<and> memo_ok dfa memo' \<and> memo_le memo memo' \<and> map_of memo' s = Some v)
   \<and> (\<forall>memo es syms parts parts' memo'. memo_ok dfa memo \<longrightarrow>
        sig_parts fuel dfa es syms memo parts = Some (parts', memo') \<longrightarrow>
        (\<exists>new. parts' = parts @ new
           \<and> list_all2 (\<lambda>a p. \<exists>v. has_sig dfa (first_dest es a) v \<and> p = a @ ''>'' @ v) syms new)
        \<and> memo_ok dfa memo' \<and> memo_le memo memo')"
proof (induction fuel)
  case 0
  have parts0: "\<And>syms memo es parts parts' memo'. memo_ok dfa memo \<Longrightarrow>
        sig_parts 0 dfa es syms memo parts = Some (parts', memo') \<Longrightarrow>
        (\<exists>new. parts' = parts @ new
           \<and> list_all2 (\<lambda>a p. \<exists>v. has_sig dfa (first_dest es a) v \<and> p = a @ ''>'' @ v) syms new)
        \<and> memo_ok dfa memo' \<and> memo_le memo memo'"
  proof -
    fix syms memo es parts parts' memo'
    assume "memo_ok dfa memo" and "sig_parts 0 dfa es syms memo parts = Some (parts', memo')"
    then show "(\<exists>new. parts' = parts @ new
           \<and> list_all2 (\<lambda>a p. \<exists>v. has_sig dfa (first_dest es a) v \<and> p = a @ ''>'' @ v) syms new)
        \<and> memo_ok dfa memo' \<and> memo_le memo memo'"
      by (cases syms) (simp_all add: memo_le_refl)
  qed
  show ?case using parts0 by simp
next
  case (Suc fuel)
  then have IHsig: "\<And>memo s v memo'. memo_ok dfa memo \<Longrightarrow> sig fuel dfa memo s = Some (v, memo') \<Longrightarrow>
      has_sig dfa s v \<and> memo_ok dfa memo' \<and> memo_le memo memo' \<and> map_of memo' s = Some v"
    and IHparts: "\<And>memo es syms parts parts' memo'. memo_ok dfa memo \<Longrightarrow>
        sig_parts fuel dfa es syms memo parts = Some (parts', memo') \<Longrightarrow>
        (\<exists>new. parts' = parts @ new
           \<and> list_all2 (\<lambda>a p. \<exists>v. has_sig dfa (first_dest es a) v \<and> p = a @ ''>'' @ v) syms new)
        \<and> memo_ok dfa memo' \<and> memo_le memo memo'"
    by blast+
  have sig_case: "has_sig dfa s v \<and> memo_ok dfa memo' \<and> memo_le memo memo' \<and> map_of memo' s = Some v"
    if ok: "memo_ok dfa memo" and eq: "sig (Suc fuel) dfa memo s = Some (v, memo')" for memo s v memo'
  proof (cases "map_of memo s")
    case (Some v0)
    with eq have "v = v0" and "memo' = memo" by simp_all
    with Some ok show ?thesis by (simp add: memo_ok_def memo_le_refl)
  next
    case None
    let ?es = "obj_get (transitions dfa) (toKey s)"
    from eq None obtain parts memo1 where
      p: "sig_parts fuel dfa ?es (sort (object_keys ?es)) memo [] = Some (parts, memo1)"
      and v: "v = (if s \<in> set (accept dfa) then ''1'' else ''0'') @ ''|'' @ join_comma parts"
      and m: "memo' = obj_set memo1 s v"
      by (auto simp: Let_def split: option.splits)
    from IHparts [OF ok p] have la: "list_all2 (\<lambda>a p. \<exists>v. has_sig dfa (first_dest ?es a) v \<and> p = a @ ''>'' @ v)
        (sort (object_keys ?es)) parts" and ok1: "memo_ok dfa memo1" and le1: "memo_le memo memo1"
      by auto
    from la have hs: "has_sig dfa s v"
      unfolding v using has_sigI [of dfa s parts] by (simp add: out_edges_def final_flag_def)
    have "memo_le memo1 memo'"
    proof -
      have "map_of memo1 x = Some y \<Longrightarrow> map_of (obj_set memo1 s v) x = Some y" for x y
      proof (cases "x = s")
        case True
        assume "map_of memo1 x = Some y"
        with True ok1 have "has_sig dfa s y" by (simp add: memo_ok_def)
        with hs have "y = v" by (rule has_sig_det [rotated])
        with True show ?thesis by (simp add: map_of_obj_set)
      next
        case False
        assume "map_of memo1 x = Some y"
        with False show ?thesis by (simp add: map_of_obj_set)
      qed
      then show ?thesis by (simp add: memo_le_def m)
    qed
    with le1 have "memo_le memo memo'" by (rule memo_le_trans)
    with hs ok1 m show ?thesis by (simp add: memo_ok_set map_of_obj_set)
  qed
  have parts_case: "(\<exists>new. parts' = parts @ new
           \<and> list_all2 (\<lambda>a p. \<exists>v. has_sig dfa (first_dest es a) v \<and> p = a @ ''>'' @ v) syms new)
        \<and> memo_ok dfa memo' \<and> memo_le memo memo'"
    if "memo_ok dfa memo" and "sig_parts (Suc fuel) dfa es syms memo parts = Some (parts', memo')"
    for memo es syms parts parts' memo'
    using that
  proof (induction syms arbitrary: memo parts)
    case Nil
    then show ?case by (simp add: memo_le_refl)
  next
    case (Cons a rest)
    from Cons.prems(2) obtain v memo1 where
      s: "sig (Suc fuel) dfa memo (first_dest es a) = Some (v, memo1)"
      and r: "sig_parts (Suc fuel) dfa es rest memo1 (parts @ [a @ ''>'' @ v]) = Some (parts', memo')"
      by (auto split: option.splits)
    from sig_case [OF Cons.prems(1) s] have hs: "has_sig dfa (first_dest es a) v"
      and ok1: "memo_ok dfa memo1" and le1: "memo_le memo memo1" by auto
    from Cons.IH [OF ok1 r] obtain new where n: "parts' = (parts @ [a @ ''>'' @ v]) @ new"
      and la: "list_all2 (\<lambda>a p. \<exists>v. has_sig dfa (first_dest es a) v \<and> p = a @ ''>'' @ v) rest new"
      and ok': "memo_ok dfa memo'" and le': "memo_le memo1 memo'" by auto
    have "parts' = parts @ ((a @ ''>'' @ v) # new)" using n by simp
    moreover have "list_all2 (\<lambda>a p. \<exists>v. has_sig dfa (first_dest es a) v \<and> p = a @ ''>'' @ v)
        (a # rest) ((a @ ''>'' @ v) # new)" using hs la by auto
    ultimately show ?case using ok' memo_le_trans [OF le1 le'] by blast
  qed
  show ?case using sig_case parts_case by blast
qed

subsection \<open>More fuel does not change a result\<close>

lemma sig_mono_aux:
  "(\<forall>memo s r. sig fuel dfa memo s = Some r \<longrightarrow> sig (Suc fuel) dfa memo s = Some r)
   \<and> (\<forall>es syms memo parts r. sig_parts fuel dfa es syms memo parts = Some r \<longrightarrow>
         sig_parts (Suc fuel) dfa es syms memo parts = Some r)"
proof (induction fuel)
  case 0
  have "sig_parts 0 dfa es syms memo parts = Some r \<Longrightarrow> sig_parts (Suc 0) dfa es syms memo parts = Some r"
    for es syms memo parts r
    by (cases syms) simp_all
  then show ?case by simp
next
  case (Suc fuel)
  then have IHsig: "\<And>memo s r. sig fuel dfa memo s = Some r \<Longrightarrow> sig (Suc fuel) dfa memo s = Some r"
    and IHparts: "\<And>es syms memo parts r. sig_parts fuel dfa es syms memo parts = Some r \<Longrightarrow>
         sig_parts (Suc fuel) dfa es syms memo parts = Some r"
    by blast+
  have sig_case: "sig (Suc (Suc fuel)) dfa memo s = Some r" if eq: "sig (Suc fuel) dfa memo s = Some r"
    for memo s r
  proof (cases "map_of memo s")
    case (Some v0)
    with eq show ?thesis by simp
  next
    case None
    let ?es = "obj_get (transitions dfa) (toKey s)"
    from eq None obtain q where
      p: "sig_parts fuel dfa ?es (sort (object_keys ?es)) memo [] = Some q"
      by (auto simp: Let_def split: option.splits)
    from IHparts [OF p] eq None p show ?thesis by (simp add: Let_def)
  qed
  have parts_case: "sig_parts (Suc (Suc fuel)) dfa es syms memo parts = Some r"
    if "sig_parts (Suc fuel) dfa es syms memo parts = Some r" for es syms memo parts r
    using that
  proof (induction syms arbitrary: memo parts)
    case Nil
    then show ?case by simp
  next
    case (Cons a rest)
    from Cons.prems obtain v memo1 where
      s: "sig (Suc fuel) dfa memo (first_dest es a) = Some (v, memo1)"
      and r: "sig_parts (Suc fuel) dfa es rest memo1 (parts @ [a @ ''>'' @ v]) = Some r"
      by (auto split: option.splits)
    from sig_case [OF s] Cons.IH [OF r] show ?case by (simp del: sig.simps)
  qed
  show ?case using sig_case parts_case by blast
qed

lemma sig_mono: "sig fuel dfa memo s = Some r \<Longrightarrow> fuel \<le> fuel' \<Longrightarrow> sig fuel' dfa memo s = Some r"
proof (induction fuel' )
  case 0
  then show ?case by simp
next
  case (Suc fuel')
  show ?case
  proof (cases "fuel = Suc fuel'")
    case True
    with Suc.prems show ?thesis by simp
  next
    case False
    with Suc.prems have "fuel \<le> fuel'" by simp
    from Suc.IH [OF Suc.prems(1) this] sig_mono_aux [of fuel' dfa] show ?thesis by blast
  qed
qed

lemma sig_all_mono:
  "sig_all fuel dfa ss memo = Some r \<Longrightarrow> fuel \<le> fuel' \<Longrightarrow> sig_all fuel' dfa ss memo = Some r"
proof (induction ss arbitrary: memo)
  case Nil
  then show ?case by simp
next
  case (Cons s ss)
  from Cons.prems(1) obtain v memo1 where s: "sig fuel dfa memo s = Some (v, memo1)"
    and r: "sig_all fuel dfa ss memo1 = Some r" by (auto split: option.splits)
  from sig_mono [OF s Cons.prems(2)] Cons.IH [OF r Cons.prems(2)] show ?case by simp
qed

text \<open>The relation that the recursion of \<open>sig\<close> follows.\<close>

definition succ_rel :: "automaton \<Rightarrow> (sid \<times> sid) set" where
  "succ_rel dfa = {(s, first_dest (out_edges dfa s) a) | s a. a \<in> keys_of (out_edges dfa s)}"

lemma set_object_keys: "set (object_keys ob) = keys_of ob"
  by (simp add: object_keys_def keys_of_def)

lemma sig_parts_total:
  "(\<forall>a \<in> set syms. \<forall>memo. sig fuel dfa memo (first_dest es a) \<noteq> None) \<Longrightarrow>
   sig_parts fuel dfa es syms memo parts \<noteq> None"
proof (induction syms arbitrary: memo parts)
  case Nil
  show ?case by simp
next
  case (Cons a rest)
  from Cons.prems obtain v memo1 where "sig fuel dfa memo (first_dest es a) = Some (v, memo1)"
    by fastforce
  moreover from Cons.IH [of memo1 "parts @ [a @ ''>'' @ v]"] Cons.prems
  have "sig_parts fuel dfa es rest memo1 (parts @ [a @ ''>'' @ v]) \<noteq> None" by simp
  ultimately show ?case by simp
qed

lemma common_bound:
  "(\<forall>x \<in> set xs. \<exists>N. \<forall>fuel \<ge> N. P x fuel) \<Longrightarrow> \<exists>M::nat. \<forall>x \<in> set xs. \<forall>fuel \<ge> M. P x fuel"
proof (induction xs)
  case Nil
  show ?case by simp
next
  case (Cons x xs)
  from Cons.prems obtain N where n: "\<forall>fuel \<ge> N. P x fuel" by auto
  from Cons.IH Cons.prems obtain M where m: "\<forall>x \<in> set xs. \<forall>fuel \<ge> M. P x fuel" by auto
  from n m have "\<forall>y \<in> set (x # xs). \<forall>fuel \<ge> max N M. P y fuel" by auto
  then show ?case by blast
qed

lemma sig_total:
  assumes wf: "wf ((succ_rel dfa)\<inverse>)"
  shows "\<exists>N. \<forall>fuel \<ge> N. \<forall>memo. sig fuel dfa memo s \<noteq> None"
  using wf
proof (induction s rule: wf_induct_rule)
  case (less s)
  let ?es = "obj_get (transitions dfa) (toKey s)"
  let ?syms = "sort (object_keys ?es)"
  have "\<forall>a \<in> set ?syms. \<exists>N. \<forall>fuel \<ge> N. \<forall>memo. sig fuel dfa memo (first_dest ?es a) \<noteq> None"
  proof
    fix a assume "a \<in> set ?syms"
    then have "a \<in> keys_of (out_edges dfa s)" by (simp add: set_object_keys out_edges_def)
    then have "(s, first_dest ?es a) \<in> succ_rel dfa" unfolding succ_rel_def out_edges_def by blast
    then have "(first_dest ?es a, s) \<in> (succ_rel dfa)\<inverse>" by simp
    from less.IH [OF this] show "\<exists>N. \<forall>fuel \<ge> N. \<forall>memo. sig fuel dfa memo (first_dest ?es a) \<noteq> None" .
  qed
  from common_bound [of ?syms "\<lambda>a fuel. \<forall>memo. sig fuel dfa memo (first_dest ?es a) \<noteq> None", OF this]
  obtain M where M: "\<forall>a \<in> set ?syms. \<forall>fuel \<ge> M. \<forall>memo. sig fuel dfa memo (first_dest ?es a) \<noteq> None"
    by blast
  have "sig fuel dfa memo s \<noteq> None" if "fuel \<ge> Suc M" for fuel memo
  proof -
    from that obtain n where fuel: "fuel = Suc n" and n: "n \<ge> M" by (cases fuel) auto
    from M n have "\<forall>a \<in> set ?syms. \<forall>memo. sig n dfa memo (first_dest ?es a) \<noteq> None" by blast
    from sig_parts_total [OF this] have "sig_parts n dfa ?es ?syms memo [] \<noteq> None" .
    then show ?thesis unfolding fuel by (auto simp: Let_def split: option.splits)
  qed
  then show ?case by blast
qed

lemma sig_all_total:
  assumes wf: "wf ((succ_rel dfa)\<inverse>)"
  shows "\<exists>N. \<forall>fuel \<ge> N. \<forall>memo. sig_all fuel dfa ss memo \<noteq> None"
proof (induction ss)
  case Nil
  show ?case by simp
next
  case (Cons s ss)
  from sig_total [OF wf, of s] obtain N where n: "\<forall>fuel \<ge> N. \<forall>memo. sig fuel dfa memo s \<noteq> None" by blast
  from Cons.IH obtain M where m: "\<forall>fuel \<ge> M. \<forall>memo. sig_all fuel dfa ss memo \<noteq> None" by blast
  have "sig_all fuel dfa (s # ss) memo \<noteq> None" if "fuel \<ge> max N M" for fuel memo
  proof -
    from that n obtain v memo1 where "sig fuel dfa memo s = Some (v, memo1)" by fastforce
    moreover from that m have "sig_all fuel dfa ss memo1 \<noteq> None" by simp
    ultimately show ?thesis by simp
  qed
  then show ?case by blast
qed

lemma sig_sound:
  assumes "memo_ok dfa memo" and "sig fuel dfa memo s = Some (v, memo')"
  shows "has_sig dfa s v" and "memo_ok dfa memo'" and "memo_le memo memo'" and "map_of memo' s = Some v"
  using sig_sound_aux [of dfa fuel] assms by blast+

lemma sig_all_sound:
  "memo_ok dfa memo \<Longrightarrow> sig_all fuel dfa ss memo = Some memo' \<Longrightarrow>
   memo_ok dfa memo' \<and> memo_le memo memo' \<and> (\<forall>s \<in> set ss. map_of memo' s \<noteq> None)"
proof (induction ss arbitrary: memo)
  case Nil
  then show ?case by (simp add: memo_le_refl)
next
  case (Cons s ss)
  from Cons.prems(2) obtain v memo1 where s: "sig fuel dfa memo s = Some (v, memo1)"
    and r: "sig_all fuel dfa ss memo1 = Some memo'" by (auto split: option.splits)
  note ss = sig_sound [OF Cons.prems(1) s]
  from Cons.IH [OF ss(2) r] have ok': "memo_ok dfa memo'" and le: "memo_le memo1 memo'"
    and rest: "\<forall>s \<in> set ss. map_of memo' s \<noteq> None" by auto
  from le ss(4) have "map_of memo' s = Some v" by (simp add: memo_le_def)
  with ok' rest memo_le_trans [OF ss(3) le] show ?case by simp
qed

subsection \<open>Choosing the representatives\<close>

text \<open>One round of the loop that fills \<open>rep\<close> and \<open>mapToRep\<close>, for the signature function \<open>g\<close>.\<close>

definition rep_step ::
  "(sid \<Rightarrow> string option) \<Rightarrow> sid \<Rightarrow> (string option \<times> sid) list \<times> (sid \<times> sid) list
     \<Rightarrow> (string option \<times> sid) list \<times> (sid \<times> sid) list" where
  "rep_step g s = (\<lambda>(rep, mapToRep).
     (let signature = g s;
          rep' = (if signature \<in> keys_of rep then rep else rep @ [(signature, s)])
      in (rep', obj_set mapToRep s (map_get rep' signature))))"

lemma choose_reps_fold: "choose_reps memo ss = fold (rep_step (map_of memo)) ss ([], [])"
proof -
  have "rep_step (map_of memo) = (\<lambda>s (rep, mapToRep).
             (let signature = map_of memo s;
                  rep' = (if signature \<in> keys_of rep then rep else rep @ [(signature, s)])
              in (rep', obj_set mapToRep s (map_get rep' signature))))"
    by (intro ext) (simp add: rep_step_def)
  then show ?thesis by (simp only: choose_reps_def)
qed

definition reps_inv ::
  "(sid \<Rightarrow> string option) \<Rightarrow> sid set \<Rightarrow> (string option \<times> sid) list \<Rightarrow> (sid \<times> sid) list \<Rightarrow> bool" where
  "reps_inv g seen rep m \<longleftrightarrow>
     distinct (map fst rep)
     \<and> (\<forall>(sg, r) \<in> set rep. g r = sg \<and> r \<in> seen)
     \<and> (\<forall>s \<in> seen. g s \<in> keys_of rep \<and> map_of m s = Some (map_get rep (g s)))"

lemma map_get_append_old:
  "k \<in> keys_of rep \<Longrightarrow> map_get (rep @ extra) k = map_get rep k"
  by (auto simp: map_get_def keys_of_map_of map_add_def split: option.splits)

lemma map_get_append_new:
  "k \<notin> keys_of rep \<Longrightarrow> map_get (rep @ [(k, r)]) k = r"
  by (auto simp: map_get_def keys_of_map_of map_add_def split: option.splits)

lemma rep_step_inv:
  assumes inv: "reps_inv g seen rep m"
  shows "reps_inv g (insert s seen) (fst (rep_step g s (rep, m))) (snd (rep_step g s (rep, m)))"
proof (cases "g s \<in> keys_of rep")
  case True
  then have res: "rep_step g s (rep, m) = (rep, obj_set m s (map_get rep (g s)))"
    by (simp add: rep_step_def)
  from inv have d: "distinct (map fst rep)"
    and b: "\<forall>(sg, r) \<in> set rep. g r = sg \<and> r \<in> seen"
    and c: "\<forall>x \<in> seen. g x \<in> keys_of rep \<and> map_of m x = Some (map_get rep (g x))"
    unfolding reps_inv_def by blast+
  have b': "\<forall>(sg, r) \<in> set rep. g r = sg \<and> r \<in> insert s seen" using b by blast
  have c': "\<forall>x \<in> insert s seen. g x \<in> keys_of rep
      \<and> map_of (obj_set m s (map_get rep (g s))) x = Some (map_get rep (g x))"
    using c True by (simp add: map_of_obj_set)
  show ?thesis unfolding res fst_conv snd_conv reps_inv_def using d b' c' by blast
next
  case False
  then have res: "rep_step g s (rep, m) = (rep @ [(g s, s)], obj_set m s s)"
    by (simp add: rep_step_def map_get_append_new)
  from inv have d: "distinct (map fst rep)"
    and b: "\<forall>(sg, r) \<in> set rep. g r = sg \<and> r \<in> seen"
    and c: "\<forall>x \<in> seen. g x \<in> keys_of rep \<and> map_of m x = Some (map_get rep (g x))"
    unfolding reps_inv_def by blast+
  have d': "distinct (map fst (rep @ [(g s, s)]))" using d False by (simp add: keys_of_def)
  have b': "\<forall>(sg, r) \<in> set (rep @ [(g s, s)]). g r = sg \<and> r \<in> insert s seen" using b by auto
  have c': "g x \<in> keys_of (rep @ [(g s, s)])
      \<and> map_of (obj_set m s s) x = Some (map_get (rep @ [(g s, s)]) (g x))" if "x \<in> insert s seen" for x
  proof (cases "x = s")
    case True
    with False show ?thesis by (simp add: map_of_obj_set map_get_append_new)
  next
    case xs: False
    with that have "x \<in> seen" by simp
    with c have "g x \<in> keys_of rep" and "map_of m x = Some (map_get rep (g x))" by auto
    with xs show ?thesis by (simp add: map_of_obj_set map_get_append_old)
  qed
  show ?thesis unfolding res fst_conv snd_conv reps_inv_def using d' b' c' by blast
qed

lemma rep_fold_inv:
  "reps_inv g seen rep m \<Longrightarrow>
   reps_inv g (seen \<union> set ss) (fst (fold (rep_step g) ss (rep, m))) (snd (fold (rep_step g) ss (rep, m)))"
proof (induction ss arbitrary: seen rep m)
  case Nil
  then show ?case by simp
next
  case (Cons s ss)
  from Cons.IH [OF rep_step_inv [OF Cons.prems, of s]] show ?case by simp
qed

lemma choose_reps_inv:
  "reps_inv (map_of memo) (set ss) (fst (choose_reps memo ss)) (snd (choose_reps memo ss))"
proof -
  have "reps_inv (map_of memo) {} [] []" by (simp add: reps_inv_def)
  from rep_fold_inv [OF this, of ss] show ?thesis by (simp add: choose_reps_fold)
qed

text \<open>What the invariant gives for the result.\<close>

lemma reps_inv_values:
  assumes "reps_inv g seen rep m"
  shows "snd ` set rep \<subseteq> seen"
    and "distinct (map snd rep)"
    and "inj_on g (snd ` set rep)"
    and "\<And>s. s \<in> seen \<Longrightarrow> map_get m s \<in> snd ` set rep \<and> g (map_get m s) = g s"
proof -
  from assms have d: "distinct (map fst rep)"
    and b: "\<And>sg r. (sg, r) \<in> set rep \<Longrightarrow> g r = sg \<and> r \<in> seen"
    and c: "\<And>x. x \<in> seen \<Longrightarrow> g x \<in> keys_of rep \<and> map_of m x = Some (map_get rep (g x))"
    unfolding reps_inv_def by blast+
  show "snd ` set rep \<subseteq> seen" using b by auto
  have fst_snd: "fst p = g (snd p)" if "p \<in> set rep" for p
    using b [of "fst p" "snd p"] that by simp
  then have "map fst rep = map g (map snd rep)" by simp
  with d have dg: "distinct (map g (map snd rep))" by simp
  then have both: "distinct (map snd rep) \<and> inj_on g (set (map snd rep))"
    by (simp only: distinct_map)
  then show "distinct (map snd rep)" ..
  from both show "inj_on g (snd ` set rep)" by (simp only: set_map)
  fix s assume s: "s \<in> seen"
  from c [OF s] have k: "g s \<in> keys_of rep" and ms: "map_of m s = Some (map_get rep (g s))" by auto
  from k obtain r where r: "map_of rep (g s) = Some r" by (auto simp: keys_of_map_of)
  then have "(g s, r) \<in> set rep" by (rule map_of_SomeD)
  with b have "g r = g s" and "r \<in> snd ` set rep" by (auto intro: rev_image_eqI)
  moreover from ms r have "map_get m s = r" by (simp add: map_get_def)
  ultimately show "map_get m s \<in> snd ` set rep \<and> g (map_get m s) = g s" by simp
qed



lemma fold_set_add_distinct_eq:
  "distinct (acc @ xs) \<Longrightarrow> fold (\<lambda>x A. set_add A x) xs acc = acc @ xs"
  by (induction xs arbitrary: acc) (auto simp: set_add_def)

subsection \<open>The rebuilt transitions\<close>

definition fill_state :: "automaton \<Rightarrow> (sid \<times> sid) list \<Rightarrow> sid \<Rightarrow> sid list obj obj \<Rightarrow> sid list obj obj" where
  "fill_state dfa mapToRep s tr =
     (let es = obj_get (transitions dfa) (toKey s)
      in fold (\<lambda>a tr'. obj_set tr' (toKey s)
                         (obj_set (obj_get tr' (toKey s)) a [map_get mapToRep (first_dest es a)]))
              (object_keys es) (obj_set tr (toKey s) []))"

definition rebuild :: "automaton \<Rightarrow> (sid \<times> sid) list \<Rightarrow> sid list \<Rightarrow> sid list obj obj" where
  "rebuild dfa mapToRep R = fold (fill_state dfa mapToRep) R []"

lemma minimize_unfold:
  assumes "sig_all fuel dfa (states dfa) [] = Some memo"
  shows "minimizeAcyclicDFA fuel dfa =
     Some \<lparr>states = fold (\<lambda>x A. set_add A x) (map snd (fst (choose_reps memo (states dfa)))) [],
           alphabet = alphabet dfa,
           start = map_get (snd (choose_reps memo (states dfa))) (start dfa),
           accept = filter (\<lambda>s. s \<in> set (accept dfa))
                      (fold (\<lambda>x A. set_add A x) (map snd (fst (choose_reps memo (states dfa)))) []),
           transitions = rebuild dfa (snd (choose_reps memo (states dfa)))
                      (fold (\<lambda>x A. set_add A x) (map snd (fst (choose_reps memo (states dfa)))) [])\<rparr>"
proof -
  have "fill_state dfa m = (\<lambda>s tr.
             (let es = obj_get (transitions dfa) (toKey s)
              in fold (\<lambda>a tr'. obj_set tr' (toKey s)
                                 (obj_set (obj_get tr' (toKey s)) a [map_get m (first_dest es a)]))
                      (object_keys es) (obj_set tr (toKey s) [])))" for m
    by (intro ext) (simp add: fill_state_def)
  then show ?thesis using assms
    by (cases "choose_reps memo (states dfa)") (simp add: minimizeAcyclicDFA_def rebuild_def Let_def)
qed

lemma minimize_None:
  "sig_all fuel dfa (states dfa) [] = None \<Longrightarrow> minimizeAcyclicDFA fuel dfa = None"
  by (simp add: minimizeAcyclicDFA_def)










lemma all_entries_fill:
  "all_entries P tr \<Longrightarrow> (\<And>a. a \<in> set as \<Longrightarrow> P k a (f a)) \<Longrightarrow> keys_of tr \<subseteq> K \<Longrightarrow> k \<in> K \<Longrightarrow>
   all_entries P (fold (\<lambda>a tr'. obj_set tr' k (obj_set (obj_get tr' k) a (f a))) as tr)
   \<and> keys_of (fold (\<lambda>a tr'. obj_set tr' k (obj_set (obj_get tr' k) a (f a))) as tr) \<subseteq> K"
proof (induction as arbitrary: tr)
  case Nil
  then show ?case by simp
next
  case (Cons a as)
  let ?tr = "obj_set tr k (obj_set (obj_get tr k) a (f a))"
  have 1: "all_entries P ?tr" using Cons.prems(1,2) by (intro all_entries_set_entry) simp_all
  have 2: "keys_of ?tr \<subseteq> K" using Cons.prems(3,4) by simp
  have 3: "\<And>a. a \<in> set as \<Longrightarrow> P k a (f a)" using Cons.prems(2) by (meson list.set_intros(2))
  from Cons.IH [OF 1 3 2 Cons.prems(4)] show ?case unfolding fold_simps .
qed

lemma all_entries_fill_state:
  assumes "all_entries P tr"
    and "\<And>a. a \<in> keys_of (obj_get (transitions dfa) (toKey s)) \<Longrightarrow>
       P (toKey s) a [map_get m (first_dest (obj_get (transitions dfa) (toKey s)) a)]"
    and "keys_of tr \<subseteq> K" and "toKey s \<in> K"
  shows "all_entries P (fill_state dfa m s tr)" and "keys_of (fill_state dfa m s tr) \<subseteq> K"
proof -
  let ?es = "obj_get (transitions dfa) (toKey s)"
  have a: "all_entries P (obj_set tr (toKey s) [])" using assms(1) by (rule all_entries_reset)
  have b: "\<And>a. a \<in> set (object_keys ?es) \<Longrightarrow> P (toKey s) a [map_get m (first_dest ?es a)]"
    using assms(2) by (simp add: set_object_keys)
  have c: "keys_of (obj_set tr (toKey s) []) \<subseteq> K" using assms(3,4) by simp
  from all_entries_fill [of P "obj_set tr (toKey s) []" "object_keys ?es" "toKey s"
      "\<lambda>a. [map_get m (first_dest ?es a)]" K, OF a b c assms(4)]
  show "all_entries P (fill_state dfa m s tr)" and "keys_of (fill_state dfa m s tr) \<subseteq> K"
    unfolding fill_state_def Let_def by simp_all
qed

lemma all_entries_rebuild_fold:
  "all_entries P tr0 \<Longrightarrow>
   (\<And>s a. s \<in> set R \<Longrightarrow> a \<in> keys_of (obj_get (transitions dfa) (toKey s)) \<Longrightarrow>
       P (toKey s) a [map_get m (first_dest (obj_get (transitions dfa) (toKey s)) a)]) \<Longrightarrow>
   keys_of tr0 \<subseteq> K \<Longrightarrow> toKey ` set R \<subseteq> K \<Longrightarrow>
   all_entries P (fold (fill_state dfa m) R tr0) \<and> keys_of (fold (fill_state dfa m) R tr0) \<subseteq> K"
proof (induction R arbitrary: tr0)
  case Nil
  then show ?case by simp
next
  case (Cons s R)
  have sk: "toKey s \<in> K" using Cons.prems(4) by simp
  have b: "\<And>a. a \<in> keys_of (obj_get (transitions dfa) (toKey s)) \<Longrightarrow>
       P (toKey s) a [map_get m (first_dest (obj_get (transitions dfa) (toKey s)) a)]"
    using Cons.prems(2) [of s] by simp
  note fs = all_entries_fill_state [OF Cons.prems(1) b Cons.prems(3) sk]
  have 3: "\<And>s a. s \<in> set R \<Longrightarrow> a \<in> keys_of (obj_get (transitions dfa) (toKey s)) \<Longrightarrow>
       P (toKey s) a [map_get m (first_dest (obj_get (transitions dfa) (toKey s)) a)]"
    using Cons.prems(2) by (meson list.set_intros(2))
  have 4: "toKey ` set R \<subseteq> K" using Cons.prems(4) by simp
  from Cons.IH [OF fs(1) 3 fs(2) 4] show ?case unfolding fold_simps .
qed

lemma all_entries_rebuild:
  assumes "\<And>s a. s \<in> set R \<Longrightarrow> a \<in> keys_of (obj_get (transitions dfa) (toKey s)) \<Longrightarrow>
       P (toKey s) a [map_get m (first_dest (obj_get (transitions dfa) (toKey s)) a)]"
  shows "all_entries P (rebuild dfa m R)" and "keys_of (rebuild dfa m R) \<subseteq> toKey ` set R"
  using all_entries_rebuild_fold [of P "[]" R dfa m "toKey ` set R", OF all_entries_Nil assms]
  unfolding rebuild_def by simp_all

subsection \<open>Acyclic automata have signatures\<close>

text \<open>No transition entry is an empty array.\<close>

definition no_empty_entry :: "automaton \<Rightarrow> bool" where
  "no_empty_entry a =
     list_all (\<lambda>(k, bySymb). list_all (\<lambda>(symb, ds). ds \<noteq> []) bySymb) (transitions a)"

lemma out_edges_empty: "toKey s \<notin> keys_of (transitions dfa) \<Longrightarrow> out_edges dfa s = []"
  by (simp add: out_edges_def obj_get_def keys_of_map_of)

lemma finite_keys_of: "finite (keys_of ob)"
  by (simp add: keys_of_def)

lemma finite_succ_rel: "finite (succ_rel dfa)"
proof -
  let ?S = "insert Undefined (Str ` keys_of (transitions dfa))"
  have "succ_rel dfa \<subseteq> (\<Union>s \<in> ?S. (\<lambda>a. (s, first_dest (out_edges dfa s) a)) ` keys_of (out_edges dfa s))"
  proof
    fix e assume "e \<in> succ_rel dfa"
    then obtain s a where e: "e = (s, first_dest (out_edges dfa s) a)"
      and a: "a \<in> keys_of (out_edges dfa s)" unfolding succ_rel_def by blast
    have "s \<in> ?S"
    proof (rule ccontr)
      assume ns: "s \<notin> ?S"
      then obtain k where s: "s = Str k" by (cases s) auto
      with ns have "toKey s \<notin> keys_of (transitions dfa)" by auto
      from out_edges_empty [OF this] a show False by simp
    qed
    with e a show "e \<in> (\<Union>s \<in> ?S. (\<lambda>a. (s, first_dest (out_edges dfa s) a)) ` keys_of (out_edges dfa s))"
      by blast
  qed
  moreover have "finite (\<Union>s \<in> ?S. (\<lambda>a. (s, first_dest (out_edges dfa s) a)) ` keys_of (out_edges dfa s))"
    by (intro finite_UN_I finite_imageI finite_insert [THEN iffD2] finite_keys_of)
  ultimately show ?thesis by (rule finite_subset)
qed

lemma acyclic_wf: "acyclic (succ_rel dfa) \<Longrightarrow> wf ((succ_rel dfa)\<inverse>)"
  using finite_succ_rel by (rule finite_acyclic_wf_converse)

lemma first_pass:
  assumes "acyclic (succ_rel dfa)"
  shows "\<exists>N memo. (\<forall>fuel \<ge> N. sig_all fuel dfa (states dfa) [] = Some memo)
           \<and> memo_ok dfa memo \<and> (\<forall>s \<in> set (states dfa). map_of memo s \<noteq> None)"
proof -
  from sig_all_total [OF acyclic_wf [OF assms], of "states dfa"]
  obtain N where N: "\<forall>fuel \<ge> N. \<forall>memo. sig_all fuel dfa (states dfa) memo \<noteq> None" by blast
  then obtain memo where m: "sig_all N dfa (states dfa) [] = Some memo" by fastforce
  have "memo_ok dfa []" by (simp add: memo_ok_def)
  from sig_all_sound [OF this m] sig_all_mono [OF m] show ?thesis by blast
qed

lemma referential_integrityD:
  assumes "referential_integrity a"
  shows "start a \<in> set (states a)" and "set (accept a) \<subseteq> set (states a)"
    and "Str ` keys_of (transitions a) \<subseteq> set (states a)"
    and "\<And>k symb ds. (k, symb, ds) \<in> entries (transitions a) \<Longrightarrow> set ds \<subseteq> set (states a)"
proof -
  note a = assms [unfolded referential_integrity_entries]
  from a show "start a \<in> set (states a)" by (elim conjE)
  from a show "set (accept a) \<subseteq> set (states a)" by (elim conjE)
  from a show "Str ` keys_of (transitions a) \<subseteq> set (states a)" by (elim conjE)
  from a have all: "\<forall>(k, symb, ds) \<in> entries (transitions a). set ds \<subseteq> set (states a)"
    by (elim conjE)
  fix k symb ds assume "(k, symb, ds) \<in> entries (transitions a)"
  with all have "case (k, symb, ds) of (k, symb, ds) \<Rightarrow> set ds \<subseteq> set (states a)" by (rule bspec)
  then show "set ds \<subseteq> set (states a)" by simp
qed

text \<open>
  Where \<open>edges[a][0]\<close> leads: to a state, or, for an empty entry, to \<open>undefined\<close>.
\<close>

lemma first_dest_cases:
  assumes ri: "referential_integrity dfa" and a: "a \<in> keys_of (out_edges dfa s)"
  shows "first_dest (out_edges dfa s) a \<in> set (states dfa)
    \<or> (first_dest (out_edges dfa s) a = Undefined \<and> \<not> no_empty_entry dfa)"
proof -
  from a obtain es where es: "map_of (transitions dfa) (toKey s) = Some es"
    by (cases "map_of (transitions dfa) (toKey s)") (auto simp: out_edges_def obj_get_def)
  with a obtain ds where ds: "map_of es a = Some ds"
    by (auto simp: out_edges_def obj_get_def keys_of_map_of)
  from es have 1: "(toKey s, es) \<in> set (transitions dfa)" by (rule map_of_SomeD)
  from ds have 2: "(a, ds) \<in> set es" by (rule map_of_SomeD)
  show ?thesis
  proof (cases ds)
    case Nil
    with 1 2 have "\<not> no_empty_entry dfa" unfolding no_empty_entry_def list_all_iff by fastforce
    moreover from Nil es ds have "first_dest (out_edges dfa s) a = Undefined"
      by (simp add: out_edges_def obj_get_def first_dest_def)
    ultimately show ?thesis by simp
  next
    case (Cons d rest)
    from 1 2 have "(toKey s, a, ds) \<in> entries (transitions dfa)" unfolding entries_def by blast
    from referential_integrityD(4) [OF ri this] have "set ds \<subseteq> set (states dfa)" .
    with Cons es ds show ?thesis by (simp add: out_edges_def obj_get_def first_dest_def)
  qed
qed

lemma succ_closed:
  assumes sd: "no_empty_entry dfa" and ri: "referential_integrity dfa"
    and a: "a \<in> keys_of (out_edges dfa s)"
  shows "first_dest (out_edges dfa s) a \<in> set (states dfa)"
  using first_dest_cases [OF ri a] sd by blast

subsection \<open>The minimised automaton\<close>

text \<open>The result of \<open>minimizeAcyclicDFA\<close> once the signatures \<open>memo\<close> are known.\<close>

definition reps_of :: "(sid \<times> string) list \<Rightarrow> automaton \<Rightarrow> sid list" where
  "reps_of memo dfa = fold (\<lambda>x A. set_add A x) (map snd (fst (choose_reps memo (states dfa)))) []"

definition minimized :: "(sid \<times> string) list \<Rightarrow> automaton \<Rightarrow> automaton" where
  "minimized memo dfa =
     \<lparr>states = reps_of memo dfa, alphabet = alphabet dfa,
      start = map_get (snd (choose_reps memo (states dfa))) (start dfa),
      accept = filter (\<lambda>s. s \<in> set (accept dfa)) (reps_of memo dfa),
      transitions = rebuild dfa (snd (choose_reps memo (states dfa))) (reps_of memo dfa)\<rparr>"

lemma minimize_minimized:
  "sig_all fuel dfa (states dfa) [] = Some memo \<Longrightarrow> minimizeAcyclicDFA fuel dfa = Some (minimized memo dfa)"
  by (simp add: minimize_unfold minimized_def reps_of_def)

lemma reps_of_props:
  shows "set (reps_of memo dfa) \<subseteq> set (states dfa)"
    and "distinct (reps_of memo dfa)"
    and "inj_on (map_of memo) (set (reps_of memo dfa))"
    and "\<And>s. s \<in> set (states dfa) \<Longrightarrow>
           map_get (snd (choose_reps memo (states dfa))) s \<in> set (reps_of memo dfa)
           \<and> map_of memo (map_get (snd (choose_reps memo (states dfa))) s) = map_of memo s"
proof -
  note v = reps_inv_values [OF choose_reps_inv [of memo "states dfa"]]
  have eq: "reps_of memo dfa = map snd (fst (choose_reps memo (states dfa)))"
    unfolding reps_of_def using fold_set_add_distinct_eq [of "[]"] v(2) by simp
  show "set (reps_of memo dfa) \<subseteq> set (states dfa)" using v(1) by (simp add: eq)
  show "distinct (reps_of memo dfa)" using v(2) by (simp add: eq)
  show "inj_on (map_of memo) (set (reps_of memo dfa))" using v(3) by (simp add: eq)
  show "\<And>s. s \<in> set (states dfa) \<Longrightarrow>
           map_get (snd (choose_reps memo (states dfa))) s \<in> set (reps_of memo dfa)
           \<and> map_of memo (map_get (snd (choose_reps memo (states dfa))) s) = map_of memo s"
    using v(4) by (simp add: eq)
qed












lemma minimize_mono:
  assumes "minimizeAcyclicDFA fuel dfa = Some r" and "fuel \<le> fuel'"
  shows "minimizeAcyclicDFA fuel' dfa = Some r"
proof -
  from assms(1) obtain memo where m: "sig_all fuel dfa (states dfa) [] = Some memo"
    by (cases "sig_all fuel dfa (states dfa) []") (simp_all add: minimize_None)
  from minimize_minimized [OF m] assms(1) minimize_minimized [OF sig_all_mono [OF m assms(2)]]
  show ?thesis by simp
qed

lemma acyclic_by_rank:
  fixes rank :: "sid \<Rightarrow> nat"
  assumes "\<And>s a. a \<in> keys_of (out_edges dfa s) \<Longrightarrow> rank (first_dest (out_edges dfa s) a) < rank s"
  shows "acyclic (succ_rel dfa)"
proof -
  have "(succ_rel dfa)\<inverse> \<subseteq> measure rank" using assms by (auto simp: succ_rel_def)
  then have "wf ((succ_rel dfa)\<inverse>)" by (rule wf_subset [OF wf_measure])
  then have "acyclic ((succ_rel dfa)\<inverse>)" by (rule wf_acyclic)
  then show ?thesis by (simp only: acyclic_converse)
qed


lemma minimized_integrity:
  assumes ac: "acyclic (succ_rel dfa)" and sd: "no_empty_entry dfa" and ri: "referential_integrity dfa"
    and strs: "Undefined \<notin> set (states dfa)"
  shows "\<exists>N D1. (\<forall>fuel \<ge> N. minimizeAcyclicDFA fuel dfa = Some D1) \<and> referential_integrity D1"
proof -
  from first_pass [OF ac] obtain N1 memo where
    p1: "\<forall>fuel \<ge> N1. sig_all fuel dfa (states dfa) [] = Some memo" by blast
  let ?D1 = "minimized memo dfa"
  let ?R = "reps_of memo dfa"
  let ?m = "snd (choose_reps memo (states dfa))"
  note rp = reps_of_props [where memo = memo and dfa = dfa]
  have sel: "states ?D1 = ?R" "start ?D1 = map_get ?m (start dfa)"
    "accept ?D1 = filter (\<lambda>s. s \<in> set (accept dfa)) ?R" "transitions ?D1 = rebuild dfa ?m ?R"
    by (simp_all add: minimized_def)
  have 1: "map_get ?m (start dfa) \<in> set ?R"
    using rp(4) [OF referential_integrityD(1) [OF ri]] by simp
  have 2: "set (filter (\<lambda>s. s \<in> set (accept dfa)) ?R) \<subseteq> set ?R" by auto
  have dest: "set [map_get ?m (first_dest (obj_get (transitions dfa) (toKey s)) a)] \<subseteq> set ?R"
    if "s \<in> set ?R" and "a \<in> keys_of (obj_get (transitions dfa) (toKey s))" for s a
  proof -
    from that(2) have "a \<in> keys_of (out_edges dfa s)" by (simp add: out_edges_def)
    from succ_closed [OF sd ri this] have "first_dest (out_edges dfa s) a \<in> set (states dfa)" .
    from rp(4) [OF this] show ?thesis by (simp add: out_edges_def)
  qed
  note ae = all_entries_rebuild [of ?R dfa "\<lambda>k symb ds. set ds \<subseteq> set ?R" ?m, OF dest]
  have 3: "Str ` keys_of (rebuild dfa ?m ?R) \<subseteq> set ?R"
  proof
    fix x assume "x \<in> Str ` keys_of (rebuild dfa ?m ?R)"
    with ae(2) obtain r where r: "r \<in> set ?R" and x: "x = Str (toKey r)" by blast
    from r rp(1) strs have "r \<noteq> Undefined" by blast
    then have "Str (toKey r) = r" by (cases r) simp_all
    with r x show "x \<in> set ?R" by simp
  qed
  have 4: "\<forall>(k, symb, ds) \<in> entries (rebuild dfa ?m ?R). set ds \<subseteq> set ?R"
    using ae(1) by (simp add: all_entries_def)
  have "referential_integrity ?D1"
    unfolding referential_integrity_entries sel using 1 2 3 4 by blast
  moreover have "\<forall>fuel \<ge> N1. minimizeAcyclicDFA fuel dfa = Some ?D1"
    using p1 minimize_minimized by blast
  ultimately show ?thesis by blast
qed

subsection \<open>Integrity of the trie automaton, from the builder\<close>

lemma buildTrieDFA_integrity:
  assumes "buildTrieDFA L = Inr dfa"
  shows "referential_integrity dfa"
proof -
  obtain nextId nodes where f: "fold (insert_word (newId 0)) (lang_accept L)
      (1, fst (ensureNode [] (newId 0))) = (nextId, nodes)"
    by (cases "fold (insert_word (newId 0)) (lang_accept L) (1, fst (ensureNode [] (newId 0)))")
  from assms f have dfa: "dfa = \<lparr>states = map (\<lambda>(k, n). Str k) nodes,
      alphabet = fold (\<lambda>x A. set_add A x) (lang_alphabet L) [],
      start = Str (newId 0),
      accept = map (\<lambda>(k, n). Str (nid n)) (filter (\<lambda>(k, n). final n) nodes),
      transitions = trie_transitions nodes\<rparr>"
    by (auto simp: buildTrieDFA_def Let_def split: if_splits option.splits)
  from fold_insert_word_lang [OF trie_lang_initial, of "lang_accept L"] f
  obtain path where "trie_ok path (nextId, nodes)" unfolding trie_lang_def by auto
  from trie_integrity [OF this] show ?thesis unfolding dfa .
qed

section \<open>Minimisation and the language\<close>

text \<open>
  The language \<open>{aaa, ab, baa, bab}\<close> over \<open>{a, b}\<close>, the trie that \<open>buildTrieDFA\<close> makes
  of it, and what \<open>minimizeAcyclicDFA\<close> makes of that trie.
\<close>

definition collision_language :: language where
  "collision_language =
     \<lparr>lang_alphabet = [''a'', ''b''], lang_accept = [''aaa'', ''ab'', ''baa'', ''bab'']\<rparr>"

definition collision_trie :: automaton where
  "collision_trie =
     \<lparr>states = [Str ''q0'', Str ''q1'', Str ''q2'', Str ''q3'', Str ''q4'', Str ''q5'',
                Str ''q6'', Str ''q7'', Str ''q8''],
      alphabet = [''a'', ''b''], start = Str ''q0'',
      accept = [Str ''q3'', Str ''q4'', Str ''q7'', Str ''q8''],
      transitions =
        [(''q0'', [(''a'', [Str ''q1'']), (''b'', [Str ''q5''])]),
         (''q1'', [(''a'', [Str ''q2'']), (''b'', [Str ''q4''])]),
         (''q2'', [(''a'', [Str ''q3''])]), (''q3'', []), (''q4'', []),
         (''q5'', [(''a'', [Str ''q6''])]),
         (''q6'', [(''a'', [Str ''q7'']), (''b'', [Str ''q8''])]),
         (''q7'', []), (''q8'', [])]\<rparr>"

definition collision_dafsa :: automaton where
  "collision_dafsa =
     \<lparr>states = [Str ''q0'', Str ''q1'', Str ''q2'', Str ''q3'', Str ''q6''],
      alphabet = [''a'', ''b''], start = Str ''q0'', accept = [Str ''q3''],
      transitions =
        [(''q0'', [(''a'', [Str ''q1'']), (''b'', [Str ''q1''])]),
         (''q1'', [(''a'', [Str ''q2'']), (''b'', [Str ''q3''])]),
         (''q2'', [(''a'', [Str ''q3''])]), (''q3'', []),
         (''q6'', [(''a'', [Str ''q3'']), (''b'', [Str ''q3''])])]\<rparr>"

definition collision_rank :: "sid \<Rightarrow> nat" where
  "collision_rank s =
     (if s = Str ''q0'' then 3 else if s = Str ''q1'' \<or> s = Str ''q5'' then 2
      else if s = Str ''q2'' \<or> s = Str ''q6'' then 1 else 0)"

text \<open>
  The signatures that \<open>sig\<close> computes on the trie. The states \<open>q1\<close> (right language
  \<open>{aa, b}\<close>) and \<open>q5\<close> (right language \<open>{aa, ab}\<close>) get the same string: the separator
  \<open>,\<close> between the parts of a state also occurs inside the signature of a child.
\<close>

lemma collision_signatures:
  "sig_all 5 collision_trie (states collision_trie) [] = Some
     [(Str ''q3'', ''1|''), (Str ''q2'', ''0|a>1|''), (Str ''q4'', ''1|''),
      (Str ''q1'', ''0|a>0|a>1|,b>1|''), (Str ''q7'', ''1|''), (Str ''q8'', ''1|''),
      (Str ''q6'', ''0|a>1|,b>1|''), (Str ''q5'', ''0|a>0|a>1|,b>1|''),
      (Str ''q0'', ''0|a>0|a>0|a>1|,b>1|,b>0|a>0|a>1|,b>1|'')]"
  by code_simp

text \<open>The result does not depend on the bound on the depth of the recursion.\<close>

lemma collision_any_fuel:
  "5 \<le> fuel \<Longrightarrow> minimizeAcyclicDFA fuel collision_trie = Some collision_dafsa"
proof -
  have "minimizeAcyclicDFA 5 collision_trie = Some collision_dafsa" by code_simp
  then show "5 \<le> fuel \<Longrightarrow> minimizeAcyclicDFA fuel collision_trie = Some collision_dafsa"
    by (rule minimize_mono)
qed

lemma collision_trie_acyclic: "acyclic (succ_rel collision_trie)"
proof (rule acyclic_by_rank [where rank = collision_rank])
  fix s a
  assume "a \<in> keys_of (out_edges collision_trie s)"
  then show "collision_rank (first_dest (out_edges collision_trie s) a) < collision_rank s"
    by (cases s) (auto simp: out_edges_def obj_get_def first_dest_def collision_trie_def
        collision_rank_def split: if_splits)
qed

text \<open>
  C3 (minimisation preserves the language: for every acyclic deterministic automaton \<open>D\<close>
  and every string \<open>w\<close> over its alphabet, \<open>accepts(D, w).accepted\<close> equals
  \<open>accepts(minimizeAcyclicDFA(D), w).accepted\<close>) fails on the code. The trie of
  \<open>{aaa, ab, baa, bab}\<close> is deterministic and acyclic and accepts \<open>bab\<close> and rejects \<open>bb\<close>;
  the automaton that \<open>minimizeAcyclicDFA\<close> returns for it rejects \<open>bab\<close> and accepts \<open>bb\<close>.
\<close>

theorem minimize_changes_language:
  "buildTrieDFA collision_language = Inr collision_trie
   \<and> deterministic collision_trie
   \<and> acyclic (succ_rel collision_trie)
   \<and> minimizeAcyclicDFA 5 collision_trie = Some collision_dafsa
   \<and> dafsa_accepts collision_trie ''bab'' = \<lparr>accepted = True, reason = ReachedAcceptState\<rparr>
   \<and> dafsa_accepts collision_dafsa ''bab'' = \<lparr>accepted = False, reason = NoTransition\<rparr>
   \<and> dafsa_accepts collision_trie ''bb'' = \<lparr>accepted = False, reason = NoTransition\<rparr>
   \<and> dafsa_accepts collision_dafsa ''bb'' = \<lparr>accepted = True, reason = ReachedAcceptState\<rparr>"
proof -
  have "buildTrieDFA collision_language = Inr collision_trie" by code_simp
  moreover have "deterministic collision_trie" by code_simp
  moreover have "minimizeAcyclicDFA 5 collision_trie = Some collision_dafsa" by code_simp
  moreover have "dafsa_accepts collision_trie ''bab''
      = \<lparr>accepted = True, reason = ReachedAcceptState\<rparr>" by code_simp
  moreover have "dafsa_accepts collision_dafsa ''bab''
      = \<lparr>accepted = False, reason = NoTransition\<rparr>" by code_simp
  moreover have "dafsa_accepts collision_trie ''bb''
      = \<lparr>accepted = False, reason = NoTransition\<rparr>" by code_simp
  moreover have "dafsa_accepts collision_dafsa ''bb''
      = \<lparr>accepted = True, reason = ReachedAcceptState\<rparr>" by code_simp
  ultimately show ?thesis using collision_trie_acyclic by blast
qed

section \<open>Minimising twice\<close>







text \<open>
  The language of the README, \<open>{"", a, ab, aabb}\<close> over \<open>{a, b}\<close>, and its trie.
\<close>

definition readme_language :: language where
  "readme_language =
     \<lparr>lang_alphabet = [''a'', ''b''], lang_accept = ['''', ''a'', ''ab'', ''aabb'']\<rparr>"

definition readme_trie :: automaton where
  "readme_trie =
     \<lparr>states = [Str ''q0'', Str ''q1'', Str ''q2'', Str ''q3'', Str ''q4'', Str ''q5''],
      alphabet = [''a'', ''b''], start = Str ''q0'',
      accept = [Str ''q0'', Str ''q1'', Str ''q2'', Str ''q5''],
      transitions =
        [(''q0'', [(''a'', [Str ''q1''])]),
         (''q1'', [(''b'', [Str ''q2'']), (''a'', [Str ''q3''])]),
         (''q2'', []), (''q3'', [(''b'', [Str ''q4''])]),
         (''q4'', [(''b'', [Str ''q5''])]), (''q5'', [])]\<rparr>"

definition readme_trie_rank :: "sid \<Rightarrow> nat" where
  "readme_trie_rank s =
     (if s = Str ''q0'' then 4 else if s = Str ''q1'' then 3 else if s = Str ''q3'' then 2
      else if s = Str ''q4'' then 1 else 0)"

lemma readme_trie_built: "buildTrieDFA readme_language = Inr readme_trie"
  by code_simp

lemma readme_trie_acyclic: "acyclic (succ_rel readme_trie)"
proof (rule acyclic_by_rank [where rank = readme_trie_rank])
  fix s a
  assume "a \<in> keys_of (out_edges readme_trie s)"
  then show "readme_trie_rank (first_dest (out_edges readme_trie s) a) < readme_trie_rank s"
    by (cases s) (auto simp: out_edges_def obj_get_def first_dest_def readme_trie_def
        readme_trie_rank_def split: if_splits)
qed

lemma readme_trie_shape:
  "no_empty_entry readme_trie" "referential_integrity readme_trie"
  "Undefined \<notin> set (states readme_trie)"
  by code_simp+







section \<open>Referential integrity of the constructed automata\<close>

text \<open>
  A deterministic automaton with an empty transition entry (the form \<open>nfaToDfa\<close> writes for
  a symbol without a move), and what \<open>minimizeAcyclicDFA\<close> returns for it:
  \<open>[mapToRep.get(edges[a][0])]\<close> is \<open>[undefined]\<close>.
\<close>

definition empty_entry_dfa :: automaton where
  "empty_entry_dfa =
     \<lparr>states = [Str ''q0''], alphabet = [''a''], start = Str ''q0'', accept = [Str ''q0''],
      transitions = [(''q0'', [(''a'', [])])]\<rparr>"

definition empty_entry_min :: automaton where
  "empty_entry_min =
     \<lparr>states = [Str ''q0''], alphabet = [''a''], start = Str ''q0'', accept = [Str ''q0''],
      transitions = [(''q0'', [(''a'', [Undefined])])]\<rparr>"

lemma empty_entry_dfa_acyclic: "acyclic (succ_rel empty_entry_dfa)"
proof (rule acyclic_by_rank [where rank = "\<lambda>s. if s = Str ''q0'' then 1 else 0"])
  fix s a
  assume "a \<in> keys_of (out_edges empty_entry_dfa s)"
  then show "(if first_dest (out_edges empty_entry_dfa s) a = Str ''q0'' then 1 else 0)
      < (if s = Str ''q0'' then 1 else (0::nat))"
    by (cases s) (auto simp: out_edges_def obj_get_def first_dest_def empty_entry_dfa_def
        split: if_splits)
qed

text \<open>
  C10 (referential integrity of every automaton that \<open>nfaToDfa\<close>, \<open>buildTrieDFA\<close> or
  \<open>minimizeAcyclicDFA\<close> returns), as stated, fails twice. The automaton \<open>empty_entry_dfa\<close>
  is deterministic and acyclic and has referential integrity, and its minimisation has the
  destination \<open>undefined\<close>, which is not a state: \<open>minimizeAcyclicDFA\<close> is written for the
  tries of \<open>buildTrieDFA\<close>, which have no empty entry. And the object that \<open>nfaToDfa\<close>
  returns for \<open>constructor_nfa\<close> holds the function \<open>Object\<close> for the state \<open>constructor\<close>,
  and what a reader of its table finds for the symbol \<open>name\<close> are the six characters of
  \<open>"Object"\<close>, none of them a state (the defect of C6).
\<close>

theorem empty_entry_and_builtin_entry_break_integrity:
  "deterministic empty_entry_dfa
   \<and> referential_integrity empty_entry_dfa
   \<and> acyclic (succ_rel empty_entry_dfa)
   \<and> minimizeAcyclicDFA 2 empty_entry_dfa = Some empty_entry_min
   \<and> \<not> referential_integrity empty_entry_min
   \<and> nfaToDfa constructor_nfa = ReturnsBuiltin constructor_object
   \<and> \<not> object_integrity constructor_object"
proof -
  have "deterministic empty_entry_dfa" by code_simp
  moreover have "referential_integrity empty_entry_dfa" by code_simp
  moreover have "minimizeAcyclicDFA 2 empty_entry_dfa = Some empty_entry_min" by code_simp
  moreover have "\<not> referential_integrity empty_entry_min" by code_simp
  moreover have "nfaToDfa constructor_nfa = ReturnsBuiltin constructor_object" by code_simp
  moreover have "\<not> object_integrity constructor_object" by code_simp
  ultimately show ?thesis using empty_entry_dfa_acyclic by blast
qed

text \<open>The NFA of the README, and the DFA that \<open>nfaToDfa\<close> returns for it.\<close>

definition readme_automaton :: automaton where
  "readme_automaton =
     \<lparr>states = [Str ''q1'', Str ''q2''], alphabet = [''a'', ''b''], start = Str ''q1'',
      accept = [Str ''q2''],
      transitions = [(''q1'', [(''a'', [Str ''q1'', Str ''q2'']), (''b'', [Str ''q1''])]),
                     (''q2'', [(''b'', [Str ''q1''])])]\<rparr>"

definition readme_dfa :: automaton where
  "readme_dfa =
     \<lparr>states = [Str ''q1'', Str ''q1,q2''], alphabet = [''a'', ''b''], start = Str ''q1'',
      accept = [Str ''q1,q2''],
      transitions = [(''q1'', [(''a'', [Str ''q1,q2'']), (''b'', [Str ''q1''])]),
                     (''q1,q2'', [(''a'', [Str ''q1,q2'']), (''b'', [Str ''q1''])])]\<rparr>"

lemma readme_dfa_converted: "nfaToDfa readme_automaton = Returns readme_dfa"
  by code_simp

text \<open>
  C10, amended: every automaton that \<open>nfaToDfa\<close> returns with object literals only in its
  transition table has referential integrity (the start is a state, the accept states are
  states, every source and every destination of a transition is a state); so has every
  automaton that \<open>buildTrieDFA\<close> returns; and so has the automaton that
  \<open>minimizeAcyclicDFA\<close> returns (it does return, for every bound on the depth of \<open>sig\<close>
  from some \<open>N\<close> on) when its argument has referential integrity, no state \<open>undefined\<close>, no
  empty transition entry, and an acyclic successor relation. (What \<open>nfaToDfa\<close> returns
  when a name reaches a built-in object is left out: neither promised nor denied.)
\<close>

theorem constructed_automata_integrity:
  "(nfaToDfa nfa = Returns converted \<longrightarrow> referential_integrity converted)
   \<and> (buildTrieDFA L = Inr trie \<longrightarrow> referential_integrity trie)
   \<and> (Undefined \<notin> set (states dfa) \<and> referential_integrity dfa \<and> no_empty_entry dfa
        \<and> acyclic (succ_rel dfa)
      \<longrightarrow> (\<exists>N D1. (\<forall>fuel \<ge> N. minimizeAcyclicDFA fuel dfa = Some D1)
                  \<and> referential_integrity D1))"
  using nfaToDfa_integrity [of nfa converted] buildTrieDFA_integrity [of L trie]
    minimized_integrity [of dfa]
  by blast

theorem constructed_automata_integrity_witness:
  "nfaToDfa readme_automaton = Returns readme_dfa
   \<and> referential_integrity readme_dfa
   \<and> buildTrieDFA readme_language = Inr readme_trie
   \<and> referential_integrity readme_trie
   \<and> Undefined \<notin> set (states readme_trie) \<and> no_empty_entry readme_trie
   \<and> acyclic (succ_rel readme_trie)
   \<and> (\<exists>N D1. (\<forall>fuel \<ge> N. minimizeAcyclicDFA fuel readme_trie = Some D1)
             \<and> referential_integrity D1)"
  using constructed_automata_integrity
      [of readme_automaton readme_dfa readme_language readme_trie readme_trie]
    readme_dfa_converted readme_trie_built readme_trie_acyclic readme_trie_shape
  by blast

end
